theory Spec2Isabelle
  imports Main "HOL-Library.Word"
begin

unbundle bit_operations_syntax

section \<open>Board state (src/main.cpp, struct Board)\<close>

text \<open>
  \<^verbatim>\<open>using Bitboard = uint16_t;\<close>  A bitboard is a 16-bit word; cell \<open>i\<close> is bit \<open>i\<close>.
  The C++ operators promote a \<^verbatim>\<open>uint16_t\<close> to \<^verbatim>\<open>int\<close> before \<^verbatim>\<open>~\<close>, \<^verbatim>\<open>|\<close>,
  \<^verbatim>\<open>&\<close> and \<^verbatim>\<open>^\<close>; every such result is either masked with a constant below
  \<open>2^9\<close> or stored back into a \<^verbatim>\<open>uint16_t\<close>, so the low 16 bits are all that is
  ever observed and the operations are those of \<open>16 word\<close>.
\<close>

type_synonym Bitboard = "16 word"

datatype GameStatus = IN_PROGRESS | DRAW | CIRCLE_WON | CROSS_WON

record Board =
  cross :: Bitboard
  circle :: Bitboard
  cross_to_move :: bool

text \<open>\<^verbatim>\<open>return ~(cross | circle) & 0b111111111;\<close>\<close>

definition get_legal_moves :: "Board \<Rightarrow> Bitboard" where
  "get_legal_moves b = NOT (cross b OR circle b) AND 511"

text \<open>\<^verbatim>\<open>make_move\<close>: xor the move into the mover's bitboard, then flip the side.\<close>

definition make_move :: "Board \<Rightarrow> Bitboard \<Rightarrow> Board" where
  "make_move b move =
     (let b1 = (if cross_to_move b then b\<lparr>cross := cross b XOR move\<rparr>
                else b\<lparr>circle := circle b XOR move\<rparr>)
      in b1\<lparr>cross_to_move := \<not> cross_to_move b1\<rparr>)"

text \<open>\<^verbatim>\<open>unmake_move\<close>: the branch is taken on the negated flag.\<close>

definition unmake_move :: "Board \<Rightarrow> Bitboard \<Rightarrow> Board" where
  "unmake_move b move =
     (let b1 = (if \<not> cross_to_move b then b\<lparr>cross := cross b XOR move\<rparr>
                else b\<lparr>circle := circle b XOR move\<rparr>)
      in b1\<lparr>cross_to_move := \<not> cross_to_move b1\<rparr>)"

text \<open>
  The table \<^verbatim>\<open>winning_patterns\<close>, in the order of the source:
  \<^verbatim>\<open>0b111000000, 0b000111000, 0b000000111, 0b100100100, 0b010010010, 0b001001001,
  0b100010001, 0b001010100\<close>.
\<close>

definition winning_patterns :: "Bitboard list" where
  "winning_patterns = [448, 56, 7, 292, 146, 73, 273, 84]"

text \<open>
  The first loop of \<^verbatim>\<open>check_status\<close>: it returns from inside the loop at the first
  pattern owned by a side, cross tested before circle; \<open>None\<close> is falling out of the loop.
\<close>

fun win_loop :: "Board \<Rightarrow> Bitboard list \<Rightarrow> GameStatus option" where
  "win_loop b [] = None"
| "win_loop b (pattern # ps) =
     (if cross b AND pattern = pattern then Some CROSS_WON
      else if circle b AND pattern = pattern then Some CIRCLE_WON
      else win_loop b ps)"

text \<open>The second loop, with the local \<^verbatim>\<open>bool winnable\<close> as accumulator.\<close>

fun winnable_loop :: "Board \<Rightarrow> Bitboard list \<Rightarrow> bool \<Rightarrow> bool" where
  "winnable_loop b [] winnable = winnable"
| "winnable_loop b (pattern # ps) winnable =
     (let w1 = (if (cross b OR NOT (circle b)) AND pattern = pattern then True else winnable);
          w2 = (if (circle b OR NOT (cross b)) AND pattern = pattern then True else w1)
      in winnable_loop b ps w2)"

definition check_status :: "Board \<Rightarrow> GameStatus" where
  "check_status b =
     (case win_loop b winning_patterns of
        Some s \<Rightarrow> s
      | None \<Rightarrow>
          if winnable_loop b winning_patterns False then IN_PROGRESS else DRAW)"

section \<open>Alpha-beta search (src/main.cpp, alphabeta)\<close>

text \<open>
  \<^verbatim>\<open>#define bitloop(X) for (; (X); (X) = _blsr_u64(X))\<close> and
  \<^verbatim>\<open>_blsi_u64(legal_moves)\<close>: the 16-bit value is zero-extended to 64 bits, the
  intrinsic computes \<open>x & (x - 1)\<close> (reset lowest set bit) or \<open>x & -x\<close> (isolate
  lowest set bit) there, and the result is truncated when it is stored in a
  \<^verbatim>\<open>Bitboard\<close>.
\<close>

definition blsr_u64 :: "Bitboard \<Rightarrow> Bitboard" where
  "blsr_u64 x = ucast ((ucast x :: 64 word) AND ((ucast x :: 64 word) - 1))"

definition blsi_u64 :: "Bitboard \<Rightarrow> Bitboard" where
  "blsi_u64 x = ucast ((ucast x :: 64 word) AND (- (ucast x :: 64 word)))"

lemma ucast_down_minus: "(ucast ((a :: 64 word) - b) :: 16 word) = ucast a - ucast b"
  apply transfer
  subgoal for a b
  proof -
    have "take_bit 16 (take_bit 64 a - take_bit 64 b)
        = take_bit 16 (take_bit 16 (take_bit 64 a) - take_bit 16 (take_bit 64 b))"
      by (simp only: take_bit_diff)
    also have "\<dots> = take_bit 16 (take_bit 16 a - take_bit 16 b)" by simp
    also have "\<dots> = take_bit 16 (a - b)" by (simp only: take_bit_diff)
    finally show ?thesis by simp
  qed
  done

lemma ucast_down_and: "(ucast ((a :: 64 word) AND b) :: 16 word) = ucast a AND ucast b"
  by (simp add: bit_eq_iff bit_simps)

lemma ucast_down_uminus: "(ucast (- (a :: 64 word)) :: 16 word) = - ucast a"
  using ucast_down_minus[of 0 a] by simp

lemma ucast_up_down: "(ucast (ucast (x :: 16 word) :: 64 word) :: 16 word) = x"
  by (simp add: bit_eq_iff bit_simps)

lemma blsr_u64_eq [code]: "blsr_u64 x = x AND (x - 1)"
  by (simp add: blsr_u64_def ucast_down_and ucast_down_minus ucast_up_down)

lemma blsi_u64_eq [code]: "blsi_u64 x = x AND (- x)"
  by (simp add: blsi_u64_def ucast_down_and ucast_down_uminus ucast_up_down)

lemma blsr_u64_less: "x \<noteq> 0 \<Longrightarrow> unat (blsr_u64 x) < unat x"
proof -
  assume "x \<noteq> 0"
  have "x AND (x - 1) \<le> x - 1" by (rule word_and_le1)
  moreover have "x - 1 < x" using \<open>x \<noteq> 0\<close>
    by (simp add: word_less_nat_alt unat_minus_one unat_gt_0)
  ultimately show ?thesis by (simp add: blsr_u64_eq word_less_nat_alt word_le_nat_alt)
qed

text \<open>The values of a C++ \<^verbatim>\<open>int\<close> (32 bits, two's complement).\<close>

definition int32 :: "int \<Rightarrow> bool" where
  "int32 x = (- 2147483648 \<le> x \<and> x \<le> 2147483647)"

text \<open>
  \<^verbatim>\<open>int alphabeta(Board& board, int alpha, int beta, int depth)\<close>.

  The board is passed by reference and mutated by \<^verbatim>\<open>make_move\<close>/\<^verbatim>\<open>unmake_move\<close>, so
  the model returns it next to the score.

  The C++ \<^verbatim>\<open>int\<close>s are modelled as mathematical integers.  The arithmetic on them is
  \<open>- alpha\<close>, \<open>- beta\<close>, \<open>depth + 1\<close>, \<open>10 - depth\<close> and \<open>- score\<close>; signed overflow
  is undefined in C++, so the model speaks for the code exactly where each of these
  results is an \<open>int32\<close>.  That is so for every call the bot makes (depth 0..8, bounds and
  results among \<open>-100, -1, 0, 1, 100\<close>: \<open>search_call_inv\<close>, \<open>search_call_bounds\<close>), and
  more generally whenever the bounds, their negations, the depth, \<open>10 - depth\<close> and the
  depth plus the nesting still to come are \<open>int32\<close> (\<open>alphabeta_int32\<close>).  Statements
  about a value computed from \<open>depth\<close> carry that condition.

  The first argument is fuel: the number of nested activations of \<^verbatim>\<open>alphabeta\<close> that
  are still allowed.  \<open>None\<close> means that the call did not return within that nesting
  depth.  \<open>alphabeta_loop\<close> is the \<^verbatim>\<open>bitloop\<close> in the body, with the local copy
  \<^verbatim>\<open>legal_moves\<close> and the running \<^verbatim>\<open>alpha\<close> as loop state.
\<close>

function alphabeta_fuel :: "nat \<Rightarrow> Board \<Rightarrow> int \<Rightarrow> int \<Rightarrow> int \<Rightarrow> (int \<times> Board) option"
  and alphabeta_loop ::
    "nat \<Rightarrow> Board \<Rightarrow> Bitboard \<Rightarrow> int \<Rightarrow> int \<Rightarrow> int \<Rightarrow> (int \<times> Board) option"
where
  "alphabeta_fuel 0 board alpha beta depth = None"
| "alphabeta_fuel (Suc n) board alpha beta depth =
     (case check_status board of
        DRAW \<Rightarrow> Some (0, board)
      | CIRCLE_WON \<Rightarrow> Some (if cross_to_move board then - 1 else 10 - depth, board)
      | CROSS_WON \<Rightarrow> Some (if cross_to_move board then 10 - depth else - 1, board)
      | IN_PROGRESS \<Rightarrow> alphabeta_loop n board (get_legal_moves board) alpha beta depth)"
| "alphabeta_loop n board legal_moves alpha beta depth =
     (if legal_moves = 0 then Some (alpha, board)
      else
        let move_bb = blsi_u64 legal_moves;
            board1 = make_move board move_bb
        in case alphabeta_fuel n board1 (- beta) (- alpha) (depth + 1) of
             None \<Rightarrow> None
           | Some (r, board2) \<Rightarrow>
               let score = - r;
                   board3 = unmake_move board2 move_bb
               in if score \<ge> beta then Some (beta, board3)
                  else alphabeta_loop n board3 (blsr_u64 legal_moves)
                         (if score > alpha then score else alpha) beta depth)"
  by pat_completeness auto
termination
  by (relation "inv_image (less_than <*lex*> less_than)
        (\<lambda>x. case x of Inl (n, _) \<Rightarrow> (n, 0)
                     | Inr (n, _, lm, _) \<Rightarrow> (n, Suc (unat lm)))")
     (auto simp: blsr_u64_less)

text \<open>
  A call of \<^verbatim>\<open>alphabeta\<close> from outside: ten nested activations (the call itself and
  nine below it) are allowed; \<open>alphabeta_total\<close> below shows that this is enough for
  every board, and that more fuel changes nothing.
\<close>

definition alphabeta :: "Board \<Rightarrow> int \<Rightarrow> int \<Rightarrow> int \<Rightarrow> (int \<times> Board) option" where
  "alphabeta board alpha beta depth = alphabeta_fuel 10 board alpha beta depth"

section \<open>Move selection of the bot (src/main.cpp, BotPlayer::choose_move)\<close>

text \<open>
  The first \<^verbatim>\<open>bitloop\<close> of \<^verbatim>\<open>choose_move\<close>; loop state: the copy \<^verbatim>\<open>tmp_board\<close>,
  the remaining \<^verbatim>\<open>legal_moves\<close>, \<^verbatim>\<open>best_move\<close> and \<^verbatim>\<open>best_score\<close>.
\<close>

function best_loop ::
  "Board \<Rightarrow> Bitboard \<Rightarrow> Bitboard \<Rightarrow> int \<Rightarrow> (Bitboard \<times> int \<times> Board) option"
where
  "best_loop tmp_board legal_moves best_move best_score =
     (if legal_moves = 0 then Some (best_move, best_score, tmp_board)
      else
        let move_bb = blsi_u64 legal_moves;
            tmp1 = make_move tmp_board move_bb
        in case alphabeta tmp1 (- 100) 100 0 of
             None \<Rightarrow> None
           | Some (r, tmp2) \<Rightarrow>
               let score = - r;
                   tmp3 = unmake_move tmp2 move_bb
               in if score > best_score
                  then best_loop tmp3 (blsr_u64 legal_moves) move_bb score
                  else if score = best_score
                  then best_loop tmp3 (blsr_u64 legal_moves) (best_move OR move_bb) best_score
                  else best_loop tmp3 (blsr_u64 legal_moves) best_move best_score)"
  by pat_completeness auto
termination
  by (relation "measure (\<lambda>(_, lm, _). unat lm)") (auto simp: blsr_u64_less)

text \<open>
  \<^verbatim>\<open>Board tmp_board = board; Bitboard legal_moves = board.get_legal_moves();
  Bitboard best_move = 0; int best_score = -100;\<close> followed by the loop.
\<close>

definition bot_search :: "Board \<Rightarrow> (Bitboard \<times> int \<times> Board) option" where
  "bot_search board = best_loop board (get_legal_moves board) 0 (- 100)"

text \<open>
  The message printed after the loop (\<^verbatim>\<open>best_score > 0\<close>, \<^verbatim>\<open>== 0\<close>, otherwise).
\<close>

datatype prediction = Bot_wins | Draw_so_far | Bot_loses

definition predict :: "int \<Rightarrow> prediction" where
  "predict best_score =
     (if best_score > 0 then Bot_wins
      else if best_score = 0 then Draw_so_far
      else Bot_loses)"

text \<open>\<^verbatim>\<open>std::popcount(best_move)\<close> on a 16-bit value.\<close>

definition popcount :: "Bitboard \<Rightarrow> nat" where
  "popcount w = length (filter (bit w) [0..<16])"

text \<open>
  \<^verbatim>\<open>std::uniform_int_distribution<int> distr(a, b); distr(eng)\<close> returns an integer of
  the closed interval \<open>[a, b]\<close> (the library requires \<open>a \<le> b\<close>).  The draw is modelled
  by the raw randomness \<open>e\<close> it consumes: every \<open>e\<close> gives a value of the interval and
  every value of the interval is given by some \<open>e\<close>.
\<close>

definition uniform_int_distribution :: "int \<Rightarrow> int \<Rightarrow> nat \<Rightarrow> int" where
  "uniform_int_distribution a b e = a + int e mod (b - a + 1)"

text \<open>
  The loop \<^verbatim>\<open>for (int i = 0; i < 9; i++)\<close> that walks \<^verbatim>\<open>mask\<close> (here \<open>msk\<close>) over the cells and
  returns it when \<^verbatim>\<open>bit_set\<close> reaches \<^verbatim>\<open>des_bit\<close>; \<^verbatim>\<open>return 0\<close> after it.
\<close>

function select_loop :: "Bitboard \<Rightarrow> int \<Rightarrow> int \<Rightarrow> Bitboard \<Rightarrow> int \<Rightarrow> Bitboard" where
  "select_loop best_move des_bit i msk bit_set =
     (if i < 9 then
        let bit_set1 = (if msk AND best_move \<noteq> 0 then bit_set + 1 else bit_set)
        in if des_bit = bit_set1 then msk
           else select_loop best_move des_bit (i + 1) (push_bit 1 msk) bit_set1
      else 0)"
  by pat_completeness auto
termination
  by (relation "measure (\<lambda>(_, _, i, _). nat (9 - i))") auto

text \<open>
  \<^verbatim>\<open>choose_move\<close>; \<open>e\<close> is the randomness drawn from \<^verbatim>\<open>std::random_device\<close>.  The
  result is \<open>None\<close> only if a search did not return.
\<close>

definition choose_move :: "Board \<Rightarrow> nat \<Rightarrow> Bitboard option" where
  "choose_move board e =
     (case bot_search board of
        None \<Rightarrow> None
      | Some (best_move, best_score, tmp_board) \<Rightarrow>
          let move_count = int (popcount best_move)
          in if move_count \<le> 1 then Some best_move
             else
               let des_bit = uniform_int_distribution 1 (move_count - 1) e
               in Some (select_loop best_move des_bit 0 1 0))"

text \<open>\<^verbatim>\<open>Board{.cross = 0, .circle = 0, .cross_to_move = true}\<close> of \<^verbatim>\<open>main\<close>.\<close>

definition empty_board :: Board where
  "empty_board = \<lparr>cross = 0, circle = 0, cross_to_move = True\<rparr>"

section \<open>Notions used in the statements\<close>

text \<open>The occupancy set of a bitboard: the indices of its set bits.\<close>

definition cells :: "Bitboard \<Rightarrow> nat set" where
  "cells w = set (filter (bit w) [0..<16])"

text \<open>
  The status algorithm in the words of the specification, on occupancy sets.  A cell is
  \<open>rank * 3 + file\<close>; the lines are listed in the order of the table of the source:
  the three rows, the three columns, the two diagonals.
\<close>

definition lines :: "nat set list" where
  "lines = [{6, 7, 8}, {3, 4, 5}, {0, 1, 2}, {2, 5, 8}, {1, 4, 7}, {0, 3, 6},
            {0, 4, 8}, {2, 4, 6}]"

fun spec_owned :: "nat set \<Rightarrow> nat set \<Rightarrow> nat set list \<Rightarrow> GameStatus option" where
  "spec_owned cr ci [] = None"
| "spec_owned cr ci (L # Ls) =
     (if L \<subseteq> cr then Some CROSS_WON
      else if L \<subseteq> ci then Some CIRCLE_WON
      else spec_owned cr ci Ls)"

text \<open>A line is completable by a side if each of its cells is that side's or empty.\<close>

definition completable :: "nat set \<Rightarrow> nat set \<Rightarrow> nat set \<Rightarrow> bool" where
  "completable own other L = (\<forall>c\<in>L. c \<in> own \<or> (c \<notin> own \<and> c \<notin> other))"

definition spec_check_status :: "nat set \<Rightarrow> nat set \<Rightarrow> GameStatus" where
  "spec_check_status cr ci =
     (case spec_owned cr ci lines of
        Some s \<Rightarrow> s
      | None \<Rightarrow>
          if \<exists>L\<in>set lines. completable cr ci L \<or> completable ci cr L
          then IN_PROGRESS else DRAW)"

text \<open>Exchanging the two sides of a board, and the two won outcomes of a status.\<close>

definition swap_sides :: "Board \<Rightarrow> Board" where
  "swap_sides b = b\<lparr>cross := circle b, circle := cross b\<rparr>"

fun swap_status :: "GameStatus \<Rightarrow> GameStatus" where
  "swap_status CROSS_WON = CIRCLE_WON"
| "swap_status CIRCLE_WON = CROSS_WON"
| "swap_status s = s"

text \<open>
  The boards that arise from the empty board by legal moves: a legal move is a single
  cell \<open>1 << i\<close> with \<open>i\<close> in \<open>0..8\<close> that \<open>get_legal_moves\<close> contains (the test of
  \<^verbatim>\<open>HumanPlayer::choose_move\<close>).
\<close>

inductive reachable :: "Board \<Rightarrow> bool" where
  start: "reachable empty_board"
| move: "reachable b \<Longrightarrow> i < 9 \<Longrightarrow> bit (get_legal_moves b) i \<Longrightarrow>
         reachable (make_move b (2 ^ i))"

text \<open>
  A position is sound if a won status means that the side to move is the side that lost.
\<close>

definition sound :: "Board \<Rightarrow> bool" where
  "sound b = ((check_status b = CROSS_WON \<longrightarrow> \<not> cross_to_move b)
            \<and> (check_status b = CIRCLE_WON \<longrightarrow> cross_to_move b))"


text \<open>
  The search score of a move: the negated result of \<open>alphabeta\<close> on the position after the
  move, with the window \<open>(-100, 100)\<close> and depth 0, as \<open>choose_move\<close> computes it.
\<close>

definition move_score :: "Board \<Rightarrow> Bitboard \<Rightarrow> int option" where
  "move_score b m = map_option (\<lambda>(r, _). - r) (alphabeta (make_move b m) (- 100) 100 0)"


text \<open>
  The calls of \<open>alphabeta\<close> that the bot's search on \<open>root\<close> makes.  \<open>top_state\<close> are the
  values of \<open>legal_moves\<close> in the loop of \<open>choose_move\<close> (which never leaves early);
  \<open>loop_state\<close> are the values of \<open>legal_moves\<close> and \<open>alpha\<close> at the head of the loop
  of one call of \<open>alphabeta\<close> (it goes on only when the score was below \<open>beta\<close>);
  \<open>search_call\<close> collects the arguments of the calls made from either loop.
\<close>

inductive top_state :: "Board \<Rightarrow> Bitboard \<Rightarrow> bool" for root where
  init: "top_state root (get_legal_moves root)"
| step: "top_state root lm \<Longrightarrow> lm \<noteq> 0 \<Longrightarrow> top_state root (blsr_u64 lm)"

inductive loop_state :: "Board \<Rightarrow> int \<Rightarrow> int \<Rightarrow> int \<Rightarrow> Bitboard \<times> int \<Rightarrow> bool"
  for board alpha beta depth where
  init: "loop_state board alpha beta depth (get_legal_moves board, alpha)"
| step: "loop_state board alpha beta depth (lm, a) \<Longrightarrow> lm \<noteq> 0 \<Longrightarrow>
         alphabeta (make_move board (blsi_u64 lm)) (- beta) (- a) (depth + 1) = Some (r, b') \<Longrightarrow>
         \<not> - r \<ge> beta \<Longrightarrow>
         loop_state board alpha beta depth (blsr_u64 lm, if - r > a then - r else a)"

inductive search_call :: "Board \<Rightarrow> Board \<times> int \<times> int \<times> int \<Rightarrow> bool" for root where
  top: "top_state root lm \<Longrightarrow> lm \<noteq> 0 \<Longrightarrow>
        search_call root (make_move root (blsi_u64 lm), - 100, 100, 0)"
| nested: "search_call root (b, al, be, d) \<Longrightarrow> check_status b = IN_PROGRESS \<Longrightarrow>
           loop_state b al be d (lm, a) \<Longrightarrow> lm \<noteq> 0 \<Longrightarrow>
           search_call root (make_move b (blsi_u64 lm), - be, - a, d + 1)"


text \<open>
  Play in which the bot moves first: the boards on which the bot is to move.  The bot plays
  one of the moves of its \<open>best_move\<close> set (every move \<open>choose_move\<close> can return is one of
  them); while the game is in progress the opponent answers with any legal cell.
\<close>

inductive bot_first :: "Board \<Rightarrow> bool" where
  start: "bot_first empty_board"
| round: "bot_first b \<Longrightarrow> check_status b = IN_PROGRESS \<Longrightarrow> bot_search b = Some (best, s, b') \<Longrightarrow>
          bit best i \<Longrightarrow> check_status (make_move b (2 ^ i)) = IN_PROGRESS \<Longrightarrow>
          bit (get_legal_moves (make_move b (2 ^ i))) j \<Longrightarrow>
          bot_first (make_move (make_move b (2 ^ i)) (2 ^ j))"


section \<open>Unfolding the loops\<close>

declare alphabeta_loop.simps [simp del]
declare best_loop.simps [simp del]
declare select_loop.simps [simp del]

lemma alphabeta_loop_zero: "alphabeta_loop n b 0 al be d = Some (al, b)"
  by (simp add: alphabeta_loop.simps)

lemma alphabeta_loop_step:
  "lm \<noteq> 0 \<Longrightarrow> alphabeta_loop n b lm al be d =
     (case alphabeta_fuel n (make_move b (blsi_u64 lm)) (- be) (- al) (d + 1) of
        None \<Rightarrow> None
      | Some (r, b2) \<Rightarrow>
          if - r \<ge> be then Some (be, unmake_move b2 (blsi_u64 lm))
          else alphabeta_loop n (unmake_move b2 (blsi_u64 lm)) (blsr_u64 lm)
                 (if - r > al then - r else al) be d)"
  by (subst alphabeta_loop.simps) (simp add: Let_def split: option.splits)

section \<open>Round trip of a move\<close>

lemma unmake_make_move: "unmake_move (make_move b move) move = b"
  by (simp add: make_move_def unmake_move_def Let_def xor.assoc)

text \<open>
  Whatever the search returns, the board it hands back is the board it was given: every
  \<open>make_move\<close> in the loop is undone by the \<open>unmake_move\<close> after the recursive call.
\<close>

lemma alphabeta_board:
  "alphabeta_fuel n b al be d = Some (r, b') \<Longrightarrow> b' = b"
  "alphabeta_loop n b lm al be d = Some (r, b') \<Longrightarrow> b' = b"
proof (induction n b al be d and n b lm al be d arbitrary: r b' and r b'
       rule: alphabeta_fuel_alphabeta_loop.induct)
  case (1 board alpha beta depth)
  then show ?case by simp
next
  case (2 n board alpha beta depth)
  then show ?case by (auto split: GameStatus.splits)
next
  case (3 n board legal_moves alpha beta depth)
  show ?case
  proof (cases "legal_moves = 0")
    case True
    with 3(3) show ?thesis by (simp add: alphabeta_loop_zero)
  next
    case False
    let ?m = "blsi_u64 legal_moves"
    from False 3(3) obtain r1 b2 where
      c: "alphabeta_fuel n (make_move board ?m) (- beta) (- alpha) (depth + 1) = Some (r1, b2)"
      by (auto simp: alphabeta_loop_step split: option.splits)
    from 3(1)[OF False refl refl c] have b2: "b2 = make_move board ?m" .
    have b3: "unmake_move b2 ?m = board" by (simp add: b2 unmake_make_move)
    show ?thesis
    proof (cases "- r1 \<ge> beta")
      case True
      with False c 3(3) b3 show ?thesis by (simp add: alphabeta_loop_step)
    next
      case ge: False
      from False c 3(3) b3 ge have
        "alphabeta_loop n board (blsr_u64 legal_moves)
           (if - r1 > alpha then - r1 else alpha) beta depth = Some (r, b')"
        by (simp add: alphabeta_loop_step)
      moreover note 3(2)[OF False refl refl c refl refl refl ge, of r b']
      ultimately show ?thesis by (simp add: b3)
    qed
  qed
qed

text \<open>
  C5: for every board and every move (in particular every single-cell move),
  \<open>make_move\<close> followed by \<open>unmake_move\<close> with the same move gives back the board it
  started from, in all three fields (equality of records); consequently a search that
  returns hands back exactly the board it was called on, and so does every run of its
  move loop.
\<close>

theorem make_unmake_restores_board:
  "unmake_move (make_move b move) move = b
   \<and> cross (unmake_move (make_move b move) move) = cross b
   \<and> circle (unmake_move (make_move b move) move) = circle b
   \<and> cross_to_move (unmake_move (make_move b move) move) = cross_to_move b
   \<and> (alphabeta_fuel n b al be d = Some (r, b') \<longrightarrow> b' = b)
   \<and> (alphabeta_loop k b lm al2 be2 d2 = Some (r2, b2) \<longrightarrow> b2 = b)"
  using alphabeta_board(1)[of n b al be d r b'] alphabeta_board(2)[of k b lm al2 be2 d2 r2 b2]
  by (simp add: unmake_make_move)

theorem make_unmake_restores_board_witness:
  "alphabeta_fuel 3 \<lparr>cross = 99, circle = 28, cross_to_move = False\<rparr> (- 100) 100 0
     = Some (0, \<lparr>cross = 99, circle = 28, cross_to_move = False\<rparr>)
   \<and> alphabeta_loop 2 \<lparr>cross = 99, circle = 28, cross_to_move = False\<rparr> 384 (- 100) 100 0
     = Some (0, \<lparr>cross = 99, circle = 28, cross_to_move = False\<rparr>)
   \<and> unmake_move (make_move \<lparr>cross = 99, circle = 28, cross_to_move = False\<rparr> 128) 128
     = \<lparr>cross = 99, circle = 28, cross_to_move = False\<rparr>"
proof -
  let ?B = "\<lparr>cross = 99, circle = 28, cross_to_move = False\<rparr>"
  have h1: "alphabeta_fuel 3 ?B (- 100) 100 0 = Some (0, ?B)" by code_simp
  have h2: "alphabeta_loop 2 ?B 384 (- 100) 100 0 = Some (0, ?B)" by code_simp
  show ?thesis
    using h1 h2 make_unmake_restores_board[of ?B 128 3 "- 100" 100 0 0 ?B 2 384 "- 100" 100 0 0 ?B]
    by simp
qed

section \<open>Terminal evaluation\<close>

text \<open>
  Where the bounds, their negations, the depth, \<open>10 - depth\<close> and the depth plus the fuel
  are values of a C++ \<^verbatim>\<open>int\<close>, so are the arguments of every nested call and the result
  (and its negation): no operation of the search overflows there.
\<close>

lemma alphabeta_int32:
  "alphabeta_fuel n b al be d = Some (r, b') \<Longrightarrow>
     int32 al \<Longrightarrow> int32 (- al) \<Longrightarrow> int32 be \<Longrightarrow> int32 (- be) \<Longrightarrow>
     int32 d \<Longrightarrow> int32 (10 - d) \<Longrightarrow> int32 (d + int n) \<Longrightarrow>
     int32 r \<and> int32 (- r)"
  "alphabeta_loop n b lm al be d = Some (r, b') \<Longrightarrow>
     int32 al \<Longrightarrow> int32 (- al) \<Longrightarrow> int32 be \<Longrightarrow> int32 (- be) \<Longrightarrow>
     int32 d \<Longrightarrow> int32 (10 - d) \<Longrightarrow> int32 (d + 1 + int n) \<Longrightarrow>
     int32 r \<and> int32 (- r)"
proof (induction n b al be d and n b lm al be d arbitrary: r b' and r b'
       rule: alphabeta_fuel_alphabeta_loop.induct)
  case (1 board alpha beta depth)
  then show ?case by simp
next
  case (2 n board alpha beta depth)
  show ?case
  proof (cases "check_status board")
    case IN_PROGRESS
    from 2(2) IN_PROGRESS have
      "alphabeta_loop n board (get_legal_moves board) alpha beta depth = Some (r, b')" by simp
    from 2(1)[OF IN_PROGRESS this 2(3-8)] 2(9) show ?thesis by (simp add: add.commute add.left_commute)
  qed (use 2 in \<open>auto simp: int32_def\<close>)
next
  case (3 n board legal_moves alpha beta depth)
  show ?case
  proof (cases "legal_moves = 0")
    case True
    with 3(3-5) show ?thesis by (simp add: alphabeta_loop_zero)
  next
    case False
    let ?m = "blsi_u64 legal_moves"
    from False 3(3) obtain r1 b2 where
      c: "alphabeta_fuel n (make_move board ?m) (- beta) (- alpha) (depth + 1) = Some (r1, b2)"
      by (auto simp: alphabeta_loop_step split: option.splits)
    have d: "int32 (depth + 1)" "int32 (10 - (depth + 1))" "int32 (depth + 1 + int n)"
      using 3(8,9,10) by (auto simp: int32_def)
    from 3(1)[OF False refl refl c] 3(4-7) d
    have r1: "int32 r1 \<and> int32 (- r1)" by simp
    show ?thesis
    proof (cases "- r1 \<ge> beta")
      case True
      with False c 3(3) have "r = beta" by (simp add: alphabeta_loop_step)
      with 3(6,7) show ?thesis by simp
    next
      case ge: False
      let ?a = "if - r1 > alpha then - r1 else alpha"
      from False c 3(3) ge have
        l: "alphabeta_loop n (unmake_move b2 ?m) (blsr_u64 legal_moves) ?a beta depth = Some (r, b')"
        by (simp add: alphabeta_loop_step)
      have a: "int32 ?a" "int32 (- ?a)" using r1 3(4,5) by auto
      from 3(2)[OF False refl refl c refl refl refl ge l a 3(6-10)]
      show ?thesis .
    qed
  qed
qed

text \<open>
  C1: for every board, every window and every depth (values of a C++ \<^verbatim>\<open>int\<close>), a call of
  the search on a board whose status is DRAW returns 0; on CIRCLE_WON it returns \<open>-1\<close> if
  cross is to move and \<open>10 - depth\<close> if circle is to move; on CROSS_WON it returns
  \<open>10 - depth\<close> if cross is to move and \<open>-1\<close> if circle is to move, where \<open>10 - depth\<close>
  is the integer of that value whenever it is a value of \<^verbatim>\<open>int\<close> (for depth from
  \<open>-2147483637\<close> on; below that the C++ subtraction overflows).  The result does not
  depend on the fuel \<open>Suc n\<close>; with \<open>n = 0\<close> no nested activation is allowed at all, so
  these values are returned without recursing.  The board is handed back unchanged.
\<close>

theorem alphabeta_terminal:
  assumes "int32 al" "int32 be" "int32 d"
  shows "(check_status b = DRAW \<longrightarrow> alphabeta_fuel (Suc n) b al be d = Some (0, b))
   \<and> (check_status b = CIRCLE_WON \<and> cross_to_move b \<longrightarrow>
        alphabeta_fuel (Suc n) b al be d = Some (- 1, b))
   \<and> (check_status b = CIRCLE_WON \<and> \<not> cross_to_move b \<and> int32 (10 - d) \<longrightarrow>
        alphabeta_fuel (Suc n) b al be d = Some (10 - d, b))
   \<and> (check_status b = CROSS_WON \<and> cross_to_move b \<and> int32 (10 - d) \<longrightarrow>
        alphabeta_fuel (Suc n) b al be d = Some (10 - d, b))
   \<and> (check_status b = CROSS_WON \<and> \<not> cross_to_move b \<longrightarrow>
        alphabeta_fuel (Suc n) b al be d = Some (- 1, b))
   \<and> (int32 (10 - d) \<longleftrightarrow> - 2147483637 \<le> d)"
  using assms by (auto simp: int32_def)

theorem alphabeta_terminal_witness:
  "int32 (- 100) \<and> int32 100 \<and> int32 3 \<and> int32 (10 - 3)
   \<and> int32 (- 2147483637) \<and> int32 (10 - (- 2147483637))
   \<and> (check_status \<lparr>cross = 397, circle = 114, cross_to_move = False\<rparr> = DRAW
    \<and> alphabeta_fuel (Suc 0) \<lparr>cross = 397, circle = 114, cross_to_move = False\<rparr> (- 100) 100 3
        = Some (0, \<lparr>cross = 397, circle = 114, cross_to_move = False\<rparr>))
   \<and> (check_status \<lparr>cross = 280, circle = 7, cross_to_move = True\<rparr> = CIRCLE_WON
    \<and> alphabeta_fuel (Suc 0) \<lparr>cross = 280, circle = 7, cross_to_move = True\<rparr> (- 100) 100 3
        = Some (- 1, \<lparr>cross = 280, circle = 7, cross_to_move = True\<rparr>))
   \<and> (check_status \<lparr>cross = 280, circle = 7, cross_to_move = False\<rparr> = CIRCLE_WON
    \<and> alphabeta_fuel (Suc 0) \<lparr>cross = 280, circle = 7, cross_to_move = False\<rparr> (- 100) 100 3
        = Some (7, \<lparr>cross = 280, circle = 7, cross_to_move = False\<rparr>))
   \<and> (check_status \<lparr>cross = 7, circle = 24, cross_to_move = True\<rparr> = CROSS_WON
    \<and> alphabeta_fuel (Suc 0) \<lparr>cross = 7, circle = 24, cross_to_move = True\<rparr> (- 100) 100 3
        = Some (7, \<lparr>cross = 7, circle = 24, cross_to_move = True\<rparr>)
    \<and> alphabeta_fuel (Suc 0) \<lparr>cross = 7, circle = 24, cross_to_move = True\<rparr> (- 100) 100
          (- 2147483637)
        = Some (2147483647, \<lparr>cross = 7, circle = 24, cross_to_move = True\<rparr>))
   \<and> (check_status \<lparr>cross = 7, circle = 24, cross_to_move = False\<rparr> = CROSS_WON
    \<and> alphabeta_fuel (Suc 0) \<lparr>cross = 7, circle = 24, cross_to_move = False\<rparr> (- 100) 100 3
        = Some (- 1, \<lparr>cross = 7, circle = 24, cross_to_move = False\<rparr>))"
proof -
  have i: "int32 (- 100)" "int32 100" "int32 3" "int32 (10 - 3)"
    "int32 (- 2147483637)" "int32 (10 - (- 2147483637))"
    by (simp_all add: int32_def)
  have h1: "check_status \<lparr>cross = 397, circle = 114, cross_to_move = False\<rparr> = DRAW"
    by code_simp
  have h2: "check_status \<lparr>cross = 280, circle = 7, cross_to_move = True\<rparr> = CIRCLE_WON"
    by code_simp
  have h3: "check_status \<lparr>cross = 280, circle = 7, cross_to_move = False\<rparr> = CIRCLE_WON"
    by code_simp
  have h4: "check_status \<lparr>cross = 7, circle = 24, cross_to_move = True\<rparr> = CROSS_WON"
    by code_simp
  have h5: "check_status \<lparr>cross = 7, circle = 24, cross_to_move = False\<rparr> = CROSS_WON"
    by code_simp
  note t = alphabeta_terminal[OF i(1) i(2) i(3), of _ 0]
  note u = alphabeta_terminal[OF i(1) i(2) i(5), of _ 0]
  have a1: "alphabeta_fuel (Suc 0) \<lparr>cross = 397, circle = 114, cross_to_move = False\<rparr> (- 100) 100 3
        = Some (0, \<lparr>cross = 397, circle = 114, cross_to_move = False\<rparr>)"
    using t[of "\<lparr>cross = 397, circle = 114, cross_to_move = False\<rparr>"] h1 by blast
  have a2: "alphabeta_fuel (Suc 0) \<lparr>cross = 280, circle = 7, cross_to_move = True\<rparr> (- 100) 100 3
        = Some (- 1, \<lparr>cross = 280, circle = 7, cross_to_move = True\<rparr>)"
    using t[of "\<lparr>cross = 280, circle = 7, cross_to_move = True\<rparr>"] h2 by simp
  have a3: "alphabeta_fuel (Suc 0) \<lparr>cross = 280, circle = 7, cross_to_move = False\<rparr> (- 100) 100 3
        = Some (7, \<lparr>cross = 280, circle = 7, cross_to_move = False\<rparr>)"
    using t[of "\<lparr>cross = 280, circle = 7, cross_to_move = False\<rparr>"] h3 i(4) by simp
  have a4: "alphabeta_fuel (Suc 0) \<lparr>cross = 7, circle = 24, cross_to_move = True\<rparr> (- 100) 100 3
        = Some (7, \<lparr>cross = 7, circle = 24, cross_to_move = True\<rparr>)"
    using t[of "\<lparr>cross = 7, circle = 24, cross_to_move = True\<rparr>"] h4 i(4) by simp
  have a4': "alphabeta_fuel (Suc 0) \<lparr>cross = 7, circle = 24, cross_to_move = True\<rparr> (- 100) 100
          (- 2147483637)
        = Some (2147483647, \<lparr>cross = 7, circle = 24, cross_to_move = True\<rparr>)"
    using u[of "\<lparr>cross = 7, circle = 24, cross_to_move = True\<rparr>"] h4 i(6) by simp
  have a5: "alphabeta_fuel (Suc 0) \<lparr>cross = 7, circle = 24, cross_to_move = False\<rparr> (- 100) 100 3
        = Some (- 1, \<lparr>cross = 7, circle = 24, cross_to_move = False\<rparr>)"
    using t[of "\<lparr>cross = 7, circle = 24, cross_to_move = False\<rparr>"] h5 by simp
  from i h1 h2 h3 h4 h5 a1 a2 a3 a4 a4' a5 show ?thesis by blast
qed

section \<open>The status algorithm\<close>

lemma cells_iff: "i \<in> cells w \<longleftrightarrow> bit w i"
  by (auto simp: cells_def dest: bit_imp_le_length)

lemma and_pattern_iff:
  fixes w :: Bitboard
  assumes "i < 16" "j < 16" "k < 16"
  shows "(w AND (2 ^ i OR 2 ^ j OR 2 ^ k) = 2 ^ i OR 2 ^ j OR 2 ^ k)
         \<longleftrightarrow> bit w i \<and> bit w j \<and> bit w k"
proof
  assume a: "w AND (2 ^ i OR 2 ^ j OR 2 ^ k) = 2 ^ i OR 2 ^ j OR 2 ^ k"
  have "bit (w AND (2 ^ i OR 2 ^ j OR 2 ^ k)) n = bit (2 ^ i OR 2 ^ j OR 2 ^ k :: Bitboard) n"
    for n by (simp only: a)
  from this[of i] this[of j] this[of k] assms
  show "bit w i \<and> bit w j \<and> bit w k"
    by (simp add: bit_and_iff bit_or_iff bit_exp_iff)
next
  assume "bit w i \<and> bit w j \<and> bit w k"
  then show "w AND (2 ^ i OR 2 ^ j OR 2 ^ k) = 2 ^ i OR 2 ^ j OR 2 ^ k"
    by (intro bit_eqI) (auto simp: bit_and_iff bit_or_iff bit_exp_iff)
qed

lemma pattern_owned_aux:
  fixes w :: Bitboard
  assumes "i < 16" "j < 16" "k < 16" "p = 2 ^ i OR 2 ^ j OR 2 ^ k"
  shows "(w AND p = p) \<longleftrightarrow> {i, j, k} \<subseteq> cells w"
  using and_pattern_iff[OF assms(1-3), of w] by (simp add: assms(4) cells_iff)

lemma pattern_owned:
  fixes w :: Bitboard
  shows "(w AND 448 = 448) \<longleftrightarrow> {6, 7, 8} \<subseteq> cells w"
    "(w AND 56 = 56) \<longleftrightarrow> {3, 4, 5} \<subseteq> cells w"
    "(w AND 7 = 7) \<longleftrightarrow> {0, 1, 2} \<subseteq> cells w"
    "(w AND 292 = 292) \<longleftrightarrow> {2, 5, 8} \<subseteq> cells w"
    "(w AND 146 = 146) \<longleftrightarrow> {1, 4, 7} \<subseteq> cells w"
    "(w AND 73 = 73) \<longleftrightarrow> {0, 3, 6} \<subseteq> cells w"
    "(w AND 273 = 273) \<longleftrightarrow> {0, 4, 8} \<subseteq> cells w"
    "(w AND 84 = 84) \<longleftrightarrow> {2, 4, 6} \<subseteq> cells w"
  by (rule pattern_owned_aux; simp)+

lemma win_loop_spec:
  "win_loop b winning_patterns = spec_owned (cells (cross b)) (cells (circle b)) lines"
  by (simp add: winning_patterns_def lines_def pattern_owned del: insert_subset)

lemma completable_iff:
  "\<forall>c\<in>L. c < 16 \<Longrightarrow>
   L \<subseteq> cells (a OR NOT c') \<longleftrightarrow> completable (cells a) (cells c') L"
  by (auto simp: completable_def cells_iff bit_or_iff bit_not_iff)

lemma pattern_completable:
  fixes a c :: Bitboard
  shows "((a OR NOT c) AND 448 = 448) \<longleftrightarrow> completable (cells a) (cells c) {6, 7, 8}"
    "((a OR NOT c) AND 56 = 56) \<longleftrightarrow> completable (cells a) (cells c) {3, 4, 5}"
    "((a OR NOT c) AND 7 = 7) \<longleftrightarrow> completable (cells a) (cells c) {0, 1, 2}"
    "((a OR NOT c) AND 292 = 292) \<longleftrightarrow> completable (cells a) (cells c) {2, 5, 8}"
    "((a OR NOT c) AND 146 = 146) \<longleftrightarrow> completable (cells a) (cells c) {1, 4, 7}"
    "((a OR NOT c) AND 73 = 73) \<longleftrightarrow> completable (cells a) (cells c) {0, 3, 6}"
    "((a OR NOT c) AND 273 = 273) \<longleftrightarrow> completable (cells a) (cells c) {0, 4, 8}"
    "((a OR NOT c) AND 84 = 84) \<longleftrightarrow> completable (cells a) (cells c) {2, 4, 6}"
  by (simp_all only: pattern_owned) (rule completable_iff; simp)+

lemma winnable_loop_spec:
  "winnable_loop b winning_patterns False \<longleftrightarrow>
     (\<exists>L\<in>set lines. completable (cells (cross b)) (cells (circle b)) L
                  \<or> completable (cells (circle b)) (cells (cross b)) L)"
  by (simp add: winning_patterns_def lines_def pattern_completable Let_def)

lemma check_status_spec:
  "check_status b = spec_check_status (cells (cross b)) (cells (circle b))"
  unfolding check_status_def spec_check_status_def win_loop_spec winnable_loop_spec ..

text \<open>
  C6: on every board \<open>check_status\<close> computes the algorithm of the specification: go
  through the eight lines (three rows, three columns, two diagonals) in order; at the first
  line whose three cells are all cross's answer CROSS_WON, else if they are all circle's
  answer CIRCLE_WON; if no line is owned, answer IN_PROGRESS if some line is still
  completable by some side (each of its cells is that side's or empty) and DRAW otherwise.
  A draw can be declared before the board is full: the board with cross on 0, 2, 3, 7 and
  circle on 1, 4, 5, 6 is a DRAW although cell 8 is a legal move.
\<close>

theorem check_status_algorithm:
  "check_status b = spec_check_status (cells (cross b)) (cells (circle b))
   \<and> check_status \<lparr>cross = 141, circle = 114, cross_to_move = True\<rparr> = DRAW
   \<and> get_legal_moves \<lparr>cross = 141, circle = 114, cross_to_move = True\<rparr> = 256"
proof -
  have "check_status \<lparr>cross = 141, circle = 114, cross_to_move = True\<rparr> = DRAW"
    by code_simp
  moreover have "get_legal_moves \<lparr>cross = 141, circle = 114, cross_to_move = True\<rparr> = 256"
    by code_simp
  ultimately show ?thesis by (simp add: check_status_spec)
qed

theorem check_status_algorithm_witness:
  "spec_check_status (cells 7) (cells 24) = CROSS_WON
   \<and> spec_check_status (cells 280) (cells 7) = CIRCLE_WON
   \<and> spec_check_status (cells 1) (cells 16) = IN_PROGRESS
   \<and> spec_check_status (cells 141) (cells 114) = DRAW"
proof -
  have "check_status \<lparr>cross = 7, circle = 24, cross_to_move = False\<rparr> = CROSS_WON"
    by code_simp
  moreover have "check_status \<lparr>cross = 280, circle = 7, cross_to_move = True\<rparr> = CIRCLE_WON"
    by code_simp
  moreover have "check_status \<lparr>cross = 1, circle = 16, cross_to_move = True\<rparr> = IN_PROGRESS"
    by code_simp
  moreover have "check_status \<lparr>cross = 141, circle = 114, cross_to_move = True\<rparr> = DRAW"
    by code_simp
  ultimately show ?thesis
    using check_status_algorithm[of "\<lparr>cross = 7, circle = 24, cross_to_move = False\<rparr>"]
      check_status_algorithm[of "\<lparr>cross = 280, circle = 7, cross_to_move = True\<rparr>"]
      check_status_algorithm[of "\<lparr>cross = 1, circle = 16, cross_to_move = True\<rparr>"]
      check_status_algorithm[of "\<lparr>cross = 141, circle = 114, cross_to_move = True\<rparr>"]
    by simp
qed

section \<open>Invariants of reachable boards\<close>

lemma mask_511: "(511 :: Bitboard) = mask 9"
  by (simp add: mask_eq_exp_minus_1)

lemma legal_bit:
  "bit (get_legal_moves b) i \<longleftrightarrow> i < 9 \<and> \<not> bit (cross b) i \<and> \<not> bit (circle b) i"
  by (auto simp: get_legal_moves_def mask_511 bit_and_iff bit_not_iff bit_or_iff bit_mask_iff)

lemma reachable_inv:
  "reachable b \<Longrightarrow> (\<forall>i. \<not> (bit (cross b) i \<and> bit (circle b) i))
     \<and> (\<forall>i. bit (cross b) i \<longrightarrow> i < 9) \<and> (\<forall>i. bit (circle b) i \<longrightarrow> i < 9)"
proof (induction rule: reachable.induct)
  case start
  then show ?case by (simp add: empty_board_def)
next
  case (move b i)
  then show ?case
    by (auto simp: make_move_def Let_def legal_bit bit_xor_iff bit_exp_iff)
qed

text \<open>
  C7: on every board reachable from the empty board by legal moves, the cross and circle
  occupancy sets are disjoint and each is a subset of the cells 0..8; \<open>make_move\<close> flips
  the side to move and \<open>unmake_move\<close> flips it (back, when it undoes the move); the legal
  moves are disjoint from both occupancy sets (they are exactly the other cells of 0..8).
  Every legal \<open>make_move\<close> leads to a reachable board again, on which the occupancy sets
  are disjoint and hold exactly the cells held before and the cell of the move;
  \<open>unmake_move\<close> of that move gives back the board before it.
\<close>

theorem reachable_invariants:
  assumes "reachable b"
  shows "cells (cross b) \<inter> cells (circle b) = {}
   \<and> cells (cross b) \<subseteq> {0..8} \<and> cells (circle b) \<subseteq> {0..8}
   \<and> cross_to_move (make_move b m) = (\<not> cross_to_move b)
   \<and> cross_to_move (unmake_move b m) = (\<not> cross_to_move b)
   \<and> cross_to_move (unmake_move (make_move b m) m) = cross_to_move b
   \<and> unmake_move (make_move b m) m = b
   \<and> cells (get_legal_moves b) \<inter> cells (cross b) = {}
   \<and> cells (get_legal_moves b) \<inter> cells (circle b) = {}
   \<and> cells (get_legal_moves b) = {0..8} - (cells (cross b) \<union> cells (circle b))
   \<and> (i < 9 \<and> bit (get_legal_moves b) i \<longrightarrow>
        reachable (make_move b (2 ^ i))
        \<and> cells (cross (make_move b (2 ^ i))) \<inter> cells (circle (make_move b (2 ^ i))) = {}
        \<and> cells (cross (make_move b (2 ^ i))) \<union> cells (circle (make_move b (2 ^ i)))
            = insert i (cells (cross b) \<union> cells (circle b)))"
proof -
  have 9: "reachable (make_move b (2 ^ i))
        \<and> cells (cross (make_move b (2 ^ i))) \<inter> cells (circle (make_move b (2 ^ i))) = {}
        \<and> cells (cross (make_move b (2 ^ i))) \<union> cells (circle (make_move b (2 ^ i)))
            = insert i (cells (cross b) \<union> cells (circle b))"
    if i: "i < 9" "bit (get_legal_moves b) i"
  proof -
    have r: "reachable (make_move b (2 ^ i))" using assms i by (rule reachable.move)
    from reachable_inv[OF r] have "cells (cross (make_move b (2 ^ i)))
        \<inter> cells (circle (make_move b (2 ^ i))) = {}" by (auto simp: cells_iff)
    moreover have "cells (cross (make_move b (2 ^ i))) \<union> cells (circle (make_move b (2 ^ i)))
            = insert i (cells (cross b) \<union> cells (circle b))"
      using i by (auto simp: cells_iff make_move_def Let_def bit_xor_iff bit_exp_iff legal_bit)
    ultimately show ?thesis using r by blast
  qed
  from reachable_inv[OF assms] have
    d: "\<And>i. \<not> (bit (cross b) i \<and> bit (circle b) i)" and
    x: "\<And>i. bit (cross b) i \<Longrightarrow> i < 9" and
    o: "\<And>i. bit (circle b) i \<Longrightarrow> i < 9" by auto
  have 1: "cells (cross b) \<inter> cells (circle b) = {}" using d by (auto simp: cells_iff)
  have 2: "cells (cross b) \<subseteq> {0..8}" using x by (fastforce simp: cells_iff)
  have 3: "cells (circle b) \<subseteq> {0..8}" using o by (fastforce simp: cells_iff)
  have 4: "cross_to_move (make_move b m) = (\<not> cross_to_move b)"
    by (simp add: make_move_def Let_def)
  have 5: "cross_to_move (unmake_move b m) = (\<not> cross_to_move b)"
    by (simp add: unmake_move_def Let_def)
  have 6: "cells (get_legal_moves b) \<inter> cells (cross b) = {}"
    by (auto simp: cells_iff legal_bit)
  have 7: "cells (get_legal_moves b) \<inter> cells (circle b) = {}"
    by (auto simp: cells_iff legal_bit)
  have 8: "cells (get_legal_moves b) = {0..8} - (cells (cross b) \<union> cells (circle b))"
    by (auto simp: cells_iff legal_bit)
  have 0: "unmake_move (make_move b m) m = b" by (rule unmake_make_move)
  show ?thesis using 0 1 2 3 4 5 6 7 8 9 by simp
qed

theorem reachable_invariants_witness:
  "reachable \<lparr>cross = 1, circle = 16, cross_to_move = True\<rparr>
   \<and> cells (cross \<lparr>cross = 1, circle = 16, cross_to_move = True\<rparr>)
       \<inter> cells (circle \<lparr>cross = 1, circle = 16, cross_to_move = True\<rparr>) = {}
   \<and> cells (get_legal_moves \<lparr>cross = 1, circle = 16, cross_to_move = True\<rparr>)
       \<inter> cells (cross \<lparr>cross = 1, circle = 16, cross_to_move = True\<rparr>) = {}
   \<and> cross_to_move (make_move \<lparr>cross = 1, circle = 16, cross_to_move = True\<rparr> 4)
       = (\<not> cross_to_move \<lparr>cross = 1, circle = 16, cross_to_move = True\<rparr>)
   \<and> reachable (make_move \<lparr>cross = 1, circle = 16, cross_to_move = True\<rparr> (2 ^ 2))"
proof -
  have l0: "bit (get_legal_moves empty_board) 0" by (simp add: legal_bit empty_board_def)
  have b1: "make_move empty_board (2 ^ 0) = \<lparr>cross = 1, circle = 0, cross_to_move = False\<rparr>"
    by (simp add: make_move_def empty_board_def)
  have r1: "reachable \<lparr>cross = 1, circle = 0, cross_to_move = False\<rparr>"
    using reachable.move[OF reachable.start _ l0] b1 by simp
  have l4: "bit (get_legal_moves \<lparr>cross = 1, circle = 0, cross_to_move = False\<rparr>) 4"
    by (simp add: legal_bit bit_1_iff)
  have b2: "make_move \<lparr>cross = 1, circle = 0, cross_to_move = False\<rparr> (2 ^ 4)
            = \<lparr>cross = 1, circle = 16, cross_to_move = True\<rparr>"
    by (simp add: make_move_def)
  have r2: "reachable \<lparr>cross = 1, circle = 16, cross_to_move = True\<rparr>"
    using reachable.move[OF r1 _ l4] b2 by simp
  have l2: "2 < (9 :: nat) \<and> bit (get_legal_moves \<lparr>cross = 1, circle = 16, cross_to_move = True\<rparr>) 2"
    by (simp add: legal_bit bit_1_iff)
  note t = reachable_invariants[OF r2, of 4 2]
  from t have "2 < (9 :: nat) \<and> bit (get_legal_moves \<lparr>cross = 1, circle = 16, cross_to_move = True\<rparr>) 2
      \<longrightarrow> reachable (make_move \<lparr>cross = 1, circle = 16, cross_to_move = True\<rparr> (2 ^ 2))
        \<and> cells (cross (make_move \<lparr>cross = 1, circle = 16, cross_to_move = True\<rparr> (2 ^ 2)))
            \<inter> cells (circle (make_move \<lparr>cross = 1, circle = 16, cross_to_move = True\<rparr> (2 ^ 2))) = {}
        \<and> cells (cross (make_move \<lparr>cross = 1, circle = 16, cross_to_move = True\<rparr> (2 ^ 2)))
            \<union> cells (circle (make_move \<lparr>cross = 1, circle = 16, cross_to_move = True\<rparr> (2 ^ 2)))
            = insert 2 (cells (cross \<lparr>cross = 1, circle = 16, cross_to_move = True\<rparr>)
                \<union> cells (circle \<lparr>cross = 1, circle = 16, cross_to_move = True\<rparr>))"
    by (elim conjE) assumption
  with l2 have r3: "reachable (make_move \<lparr>cross = 1, circle = 16, cross_to_move = True\<rparr> (2 ^ 2))"
    by blast
  show ?thesis
    using r2 r3 t
    by - (elim conjE, intro conjI, assumption+)
qed

section \<open>Exchanging the sides\<close>

lemma win_loop_swap:
  assumes "\<forall>p\<in>set ps. \<not> (cross b AND p = p \<and> circle b AND p = p)"
  shows "win_loop (swap_sides b) ps = map_option swap_status (win_loop b ps)"
  using assms by (induction ps) (auto simp: swap_sides_def)

lemma winnable_loop_swap: "winnable_loop (swap_sides b) ps w = winnable_loop b ps w"
  by (induction ps arbitrary: w) (auto simp: swap_sides_def Let_def)

lemma check_status_swap_no_shared_line:
  assumes "\<forall>p\<in>set winning_patterns. \<not> (cross b AND p = p \<and> circle b AND p = p)"
  shows "check_status (swap_sides b) = swap_status (check_status b)"
  using win_loop_swap[OF assms]
  by (cases "win_loop b winning_patterns")
     (simp_all add: check_status_def winnable_loop_swap)

lemma disjoint_no_shared_line:
  assumes "cross b AND circle b = 0"
  shows "\<forall>p\<in>set winning_patterns. \<not> (cross b AND p = p \<and> circle b AND p = p)"
proof
  fix p assume p: "p \<in> set winning_patterns"
  then have nz: "p \<noteq> 0" by (auto simp: winning_patterns_def)
  show "\<not> (cross b AND p = p \<and> circle b AND p = p)"
  proof
    assume "cross b AND p = p \<and> circle b AND p = p"
    then have "p = (cross b AND circle b) AND p"
      by (metis and.assoc and.left_commute)
    with assms nz show False by simp
  qed
qed

lemma reachable_disjoint: "reachable b \<Longrightarrow> cross b AND circle b = 0"
  using reachable_inv[of b] by (auto simp: bit_eq_iff bit_and_iff)

lemma reachable_cross_row:
  "reachable \<lparr>cross = 7, circle = 24, cross_to_move = False\<rparr>"
proof -
  have m1: "make_move empty_board (2 ^ 0) = \<lparr>cross = 1, circle = 0, cross_to_move = False\<rparr>"
    by (simp add: make_move_def empty_board_def)
  have m2: "make_move \<lparr>cross = 1, circle = 0, cross_to_move = False\<rparr> (2 ^ 3)
            = \<lparr>cross = 1, circle = 8, cross_to_move = True\<rparr>"
    by (simp add: make_move_def)
  have m3: "make_move \<lparr>cross = 1, circle = 8, cross_to_move = True\<rparr> (2 ^ 1)
            = \<lparr>cross = 3, circle = 8, cross_to_move = False\<rparr>"
    by (simp add: make_move_def)
  have m4: "make_move \<lparr>cross = 3, circle = 8, cross_to_move = False\<rparr> (2 ^ 4)
            = \<lparr>cross = 3, circle = 24, cross_to_move = True\<rparr>"
    by (simp add: make_move_def)
  have m5: "make_move \<lparr>cross = 3, circle = 24, cross_to_move = True\<rparr> (2 ^ 2)
            = \<lparr>cross = 7, circle = 24, cross_to_move = False\<rparr>"
    by (simp add: make_move_def)
  have l1: "bit (get_legal_moves empty_board) 0" by (simp add: legal_bit empty_board_def)
  have l2: "bit (get_legal_moves \<lparr>cross = 1, circle = 0, cross_to_move = False\<rparr>) 3"
    by code_simp
  have l3: "bit (get_legal_moves \<lparr>cross = 1, circle = 8, cross_to_move = True\<rparr>) 1"
    by code_simp
  have l4: "bit (get_legal_moves \<lparr>cross = 3, circle = 8, cross_to_move = False\<rparr>) 4"
    by code_simp
  have l5: "bit (get_legal_moves \<lparr>cross = 3, circle = 24, cross_to_move = True\<rparr>) 2"
    by code_simp
  have r1: "reachable \<lparr>cross = 1, circle = 0, cross_to_move = False\<rparr>"
    using reachable.move[OF reachable.start _ l1] m1 by simp
  have r2: "reachable \<lparr>cross = 1, circle = 8, cross_to_move = True\<rparr>"
    using reachable.move[OF r1 _ l2] m2 by simp
  have r3: "reachable \<lparr>cross = 3, circle = 8, cross_to_move = False\<rparr>"
    using reachable.move[OF r2 _ l3] m3 by simp
  have r4: "reachable \<lparr>cross = 3, circle = 24, cross_to_move = True\<rparr>"
    using reachable.move[OF r3 _ l4] m4 by simp
  show ?thesis
    using reachable.move[OF r4 _ l5] m5 by simp
qed

text \<open>
  C9: on every board of the data model, that is, whose cross and circle occupancies are
  disjoint, and so on every board reachable from the empty board by legal moves, the status
  of the board with the two occupancies exchanged is the status of the board with
  CROSS_WON and CIRCLE_WON exchanged (DRAW and IN_PROGRESS unchanged).  The same holds
  more generally whenever no winning pattern lies inside both bitboards.
\<close>

theorem check_status_swap:
  "(cross b AND circle b = 0 \<longrightarrow>
      check_status (swap_sides b) = swap_status (check_status b))
   \<and> (reachable b \<longrightarrow>
      check_status (swap_sides b) = swap_status (check_status b))
   \<and> ((\<forall>p\<in>set winning_patterns. \<not> (cross b AND p = p \<and> circle b AND p = p)) \<longrightarrow>
      check_status (swap_sides b) = swap_status (check_status b))"
  using check_status_swap_no_shared_line[of b] disjoint_no_shared_line[of b]
    reachable_disjoint[of b]
  by blast

theorem check_status_swap_witness:
  "cross \<lparr>cross = 7, circle = 24, cross_to_move = False\<rparr>
     AND circle \<lparr>cross = 7, circle = 24, cross_to_move = False\<rparr> = 0
   \<and> reachable \<lparr>cross = 7, circle = 24, cross_to_move = False\<rparr>
   \<and> check_status \<lparr>cross = 7, circle = 24, cross_to_move = False\<rparr> = CROSS_WON
   \<and> check_status (swap_sides \<lparr>cross = 7, circle = 24, cross_to_move = False\<rparr>) = CIRCLE_WON
   \<and> cross \<lparr>cross = 7, circle = 1, cross_to_move = True\<rparr>
       AND circle \<lparr>cross = 7, circle = 1, cross_to_move = True\<rparr> = 1
   \<and> check_status \<lparr>cross = 7, circle = 1, cross_to_move = True\<rparr> = CROSS_WON
   \<and> check_status (swap_sides \<lparr>cross = 7, circle = 1, cross_to_move = True\<rparr>) = CIRCLE_WON"
proof -
  let ?B = "\<lparr>cross = 7, circle = 24, cross_to_move = False\<rparr>"
  let ?D = "\<lparr>cross = 7, circle = 1, cross_to_move = True\<rparr>"
  have d: "cross ?B AND circle ?B = 0" by simp
  have c: "check_status ?B = CROSS_WON" by code_simp
  have s1: "check_status (swap_sides ?B) = swap_status (check_status ?B)"
    using check_status_swap[of ?B] d by blast
  have s2: "check_status (swap_sides ?B) = swap_status (check_status ?B)"
    using check_status_swap[of ?B] reachable_cross_row by blast
  have n: "\<forall>p\<in>set winning_patterns. \<not> (cross ?D AND p = p \<and> circle ?D AND p = p)"
    by (simp add: winning_patterns_def)
  have o: "cross ?D AND circle ?D = 1" by simp
  have e: "check_status ?D = CROSS_WON" by code_simp
  have s3: "check_status (swap_sides ?D) = swap_status (check_status ?D)"
    using check_status_swap[of ?D] n by blast
  from d reachable_cross_row c s1 s2 o e s3 show ?thesis by simp
qed

section \<open>The lowest set bit\<close>

lemma and_double: "(2 * a) AND (2 * b) = 2 * (a AND (b :: Bitboard))"
  by (auto simp: bit_eq_iff bit_and_iff bit_double_iff)

lemma and_succ_double: "(1 + 2 * a) AND (1 + 2 * b) = 1 + 2 * (a AND (b :: Bitboard))"
  by (auto simp: bit_eq_iff bit_and_iff even_bit_succ_iff bit_double_iff)

lemma neg_succ_double: "- (1 + 2 * a) = 1 + 2 * NOT (a :: Bitboard)"
  by (simp add: not_eq_complement)

lemma blsi_single_aux: "(x :: Bitboard) \<noteq> 0 \<Longrightarrow> \<exists>k. x AND - x = 2 ^ k"
proof (induction x rule: bit_induct)
  case (stable a)
  have "unat (a div 2) = unat a div 2" by (simp add: unat_div)
  with stable(1) have "unat a = 0" by simp
  then have "a = 0" by (simp add: unat_eq_0)
  with stable(2) show ?case by simp
next
  case (rec a b)
  show ?case
  proof (cases b)
    case True
    have "(1 + 2 * a) AND - (1 + 2 * a) = 1"
      by (simp only: neg_succ_double and_succ_double) simp
    with True show ?thesis by (auto intro: exI[of _ 0])
  next
    case False
    with rec.prems have "a \<noteq> 0" by auto
    with rec.IH obtain k where "a AND - a = 2 ^ k" by auto
    then have "(2 * a) AND - (2 * a) = 2 ^ Suc k"
      using and_double[of a "- a"] by simp
    with False show ?thesis by (auto intro: exI[of _ "Suc k"])
  qed
qed

lemma blsi_u64_nonzero: "x \<noteq> 0 \<Longrightarrow> blsi_u64 x \<noteq> 0"
proof
  assume x: "x \<noteq> 0" and z: "blsi_u64 x = 0"
  have "- x = NOT (x - 1)" by (rule minus_eq_not_minus_1)
  with z have "x AND NOT (x - 1) = 0" by (simp add: blsi_u64_eq)
  then have "bit (x AND NOT (x - 1)) i = bit (0 :: Bitboard) i" for i by simp
  then have "x AND (x - 1) = x"
    by (intro bit_eqI) (auto simp: bit_and_iff bit_not_iff dest: bit_imp_le_length)
  with blsr_u64_less[OF x] show False by (simp add: blsr_u64_eq)
qed

lemma blsi_u64_single: "x \<noteq> 0 \<Longrightarrow> \<exists>k<16. blsi_u64 x = 2 ^ k \<and> bit x k"
proof -
  assume x: "x \<noteq> 0"
  from blsi_single_aux[OF x] obtain k where k: "blsi_u64 x = 2 ^ k" by (auto simp: blsi_u64_eq)
  from blsi_u64_nonzero[OF x] k have "(2 :: Bitboard) ^ k \<noteq> 0" by simp
  then have k16: "k < 16" by (simp add: exp_eq_zero_iff)
  have "bit (blsi_u64 x) k" using k k16 by (simp add: bit_exp_iff)
  then have "bit x k" by (simp add: blsi_u64_eq bit_and_iff)
  with k k16 show ?thesis by blast
qed

lemma blsi_blsr_partition:
  "bit x i \<longleftrightarrow> bit (blsi_u64 x) i \<or> bit (blsr_u64 x) i"
  "\<not> (bit (blsi_u64 x) i \<and> bit (blsr_u64 x) i)"
  by (auto simp: blsi_u64_eq blsr_u64_eq minus_eq_not_minus_1[of x] bit_and_iff bit_not_iff
           dest: bit_imp_le_length)

section \<open>Termination of the search\<close>

lemma popcount_card: "popcount w = card (cells w)"
proof -
  have "distinct (filter (bit w) [0..<16])" by simp
  from distinct_card[OF this] show ?thesis by (simp only: popcount_def cells_def)
qed

lemma finite_cells: "finite (cells w)"
  by (simp add: cells_def)

lemma legal_make_move:
  assumes "\<And>i. bit m i \<Longrightarrow> bit (get_legal_moves b) i"
  shows "bit (get_legal_moves (make_move b m)) i \<longleftrightarrow> bit (get_legal_moves b) i \<and> \<not> bit m i"
  using assms[of i] by (auto simp: legal_bit make_move_def Let_def bit_xor_iff)

lemma empties_decrease:
  assumes "m \<noteq> 0" "\<And>i. bit m i \<Longrightarrow> bit (get_legal_moves b) i"
  shows "popcount (get_legal_moves (make_move b m)) < popcount (get_legal_moves b)"
proof -
  from assms(1) obtain k where k: "bit m k" by (auto simp: bit_eq_iff)
  have "cells (get_legal_moves (make_move b m)) \<subset> cells (get_legal_moves b)"
    using k assms(2)[OF k] legal_make_move[OF assms(2)]
    by (auto simp: cells_iff)
  then show ?thesis by (simp add: popcount_card psubset_card_mono finite_cells)
qed

lemma empties_le_9: "popcount (get_legal_moves b) \<le> 9"
proof -
  have "cells (get_legal_moves b) \<subseteq> {0..<9}" by (auto simp: cells_iff legal_bit)
  then have "card (cells (get_legal_moves b)) \<le> card {0..<9::nat}"
    by (intro card_mono) auto
  then show ?thesis by (simp add: popcount_card)
qed

lemma blsi_sub: "bit (blsi_u64 x) i \<Longrightarrow> bit x i"
  by (simp add: blsi_u64_eq bit_and_iff)
lemma blsr_sub: "bit (blsr_u64 x) i \<Longrightarrow> bit x i"
  by (simp add: blsr_u64_eq bit_and_iff)

lemma alphabeta_returns:
  "popcount (get_legal_moves b) < n \<Longrightarrow> \<exists>r. alphabeta_fuel n b al be d = Some (r, b)"
  "(\<forall>i. bit lm i \<longrightarrow> bit (get_legal_moves b) i) \<Longrightarrow> popcount (get_legal_moves b) \<le> n \<Longrightarrow>
     \<exists>r. alphabeta_loop n b lm al be d = Some (r, b)"
proof (induction n b al be d and n b lm al be d rule: alphabeta_fuel_alphabeta_loop.induct)
  case (1 board alpha beta depth)
  then show ?case by simp
next
  case (2 n board alpha beta depth)
  show ?case
  proof (cases "check_status board")
    case IN_PROGRESS
    with 2 show ?thesis by simp
  qed simp_all
next
  case (3 n board legal_moves alpha beta depth)
  show ?case
  proof (cases "legal_moves = 0")
    case True
    then show ?thesis by (simp add: alphabeta_loop_zero)
  next
    case False
    let ?m = "blsi_u64 legal_moves"
    have sub: "\<And>i. bit ?m i \<Longrightarrow> bit (get_legal_moves board) i"
      using 3(3) blsi_sub by blast
    from empties_decrease[OF blsi_u64_nonzero[OF False] sub] 3(4)
    have "popcount (get_legal_moves (make_move board ?m)) < n" by simp
    from 3(1)[OF False refl refl this] obtain r1 where
      c: "alphabeta_fuel n (make_move board ?m) (- beta) (- alpha) (depth + 1)
            = Some (r1, make_move board ?m)" by blast
    show ?thesis
    proof (cases "- r1 \<ge> beta")
      case True
      with False c show ?thesis by (simp add: alphabeta_loop_step unmake_make_move)
    next
      case ge: False
      have sub': "\<forall>i. bit (blsr_u64 legal_moves) i \<longrightarrow> bit (get_legal_moves board) i"
        using 3(3) blsr_sub by blast
      from 3(2)[OF False refl refl c refl refl refl ge] sub' 3(4)
      show ?thesis using False c ge by (simp add: alphabeta_loop_step unmake_make_move)
    qed
  qed
qed


lemma alphabeta_fuel_mono:
  "alphabeta_fuel n b al be d = Some x \<Longrightarrow> n \<le> k \<Longrightarrow> alphabeta_fuel k b al be d = Some x"
  "alphabeta_loop n b lm al be d = Some x \<Longrightarrow> n \<le> k \<Longrightarrow> alphabeta_loop k b lm al be d = Some x"
proof (induction n b al be d and n b lm al be d arbitrary: x k and x k
       rule: alphabeta_fuel_alphabeta_loop.induct)
  case (1 board alpha beta depth)
  then show ?case by simp
next
  case (2 n board alpha beta depth)
  from 2(3) obtain k' where k: "k = Suc k'" "n \<le> k'" by (cases k) auto
  show ?case
  proof (cases "check_status board")
    case IN_PROGRESS
    with 2(1)[OF IN_PROGRESS _ k(2), of x] 2(2) k(1) show ?thesis by simp
  qed (use 2(2) k(1) in simp_all)
next
  case (3 n board legal_moves alpha beta depth)
  show ?case
  proof (cases "legal_moves = 0")
    case True
    with 3(3) show ?thesis by (simp add: alphabeta_loop_zero)
  next
    case False
    let ?m = "blsi_u64 legal_moves"
    from False 3(3) obtain r1 b2 where
      c: "alphabeta_fuel n (make_move board ?m) (- beta) (- alpha) (depth + 1) = Some (r1, b2)"
      by (auto simp: alphabeta_loop_step split: option.splits)
    from 3(1)[OF False refl refl c 3(4)] have
      c': "alphabeta_fuel k (make_move board ?m) (- beta) (- alpha) (depth + 1) = Some (r1, b2)" .
    show ?thesis
    proof (cases "- r1 \<ge> beta")
      case True
      with False c c' 3(3) show ?thesis by (simp add: alphabeta_loop_step)
    next
      case ge: False
      from False c 3(3) ge have
        "alphabeta_loop n (unmake_move b2 ?m) (blsr_u64 legal_moves)
           (if - r1 > alpha then - r1 else alpha) beta depth = Some x"
        by (simp add: alphabeta_loop_step)
      from 3(2)[OF False refl refl c refl refl refl ge this 3(4)]
      show ?thesis using False c' ge by (simp add: alphabeta_loop_step)
    qed
  qed
qed

lemma alphabeta_fuel_enough:
  assumes "popcount (get_legal_moves b) < n"
  shows "alphabeta_fuel n b al be d = alphabeta b al be d"
proof -
  let ?e = "Suc (popcount (get_legal_moves b))"
  from alphabeta_returns(1)[of b ?e al be d] obtain r where
    r: "alphabeta_fuel ?e b al be d = Some (r, b)" by auto
  have "?e \<le> 10" using empties_le_9[of b] by simp
  from alphabeta_fuel_mono(1)[OF r this] have "alphabeta b al be d = Some (r, b)"
    by (simp add: alphabeta_def)
  moreover from assms have "?e \<le> n" by simp
  from alphabeta_fuel_mono(1)[OF r this] have "alphabeta_fuel n b al be d = Some (r, b)" .
  ultimately show ?thesis by simp
qed

lemma alphabeta_total: "\<exists>r. alphabeta b al be d = Some (r, b)"
proof -
  have "popcount (get_legal_moves b) < 10" using empties_le_9[of b] by simp
  from alphabeta_returns(1)[OF this] show ?thesis by (simp add: alphabeta_def)
qed

lemma sub_bits: "(lm :: Bitboard) AND g = lm \<Longrightarrow> bit lm i \<Longrightarrow> bit g i"
  by (metis bit_and_iff)

text \<open>
  C10: the search returns for every board, window and depth.  The number of empty cells
  of a board (the population count of its legal moves) is at most 9; every recursive call
  made by the move loop is on a board with strictly fewer empty cells (the loop's
  \<open>legal_moves\<close> is always a nonzero part of the board's legal moves when it calls);
  hence any fuel above the number of empty cells suffices, ten nested activations (the
  call and nine levels below it) suffice for every board, and the call hands back a score
  and the board unchanged.  Nothing in the argument depends on the values of \<open>alpha\<close>,
  \<open>beta\<close> and \<open>depth\<close>: the recursion is bounded by the board alone.
\<close>

theorem alphabeta_terminates:
  "(\<exists>r. alphabeta b al be d = Some (r, b))
   \<and> popcount (get_legal_moves b) \<le> 9
   \<and> (popcount (get_legal_moves b) < n \<longrightarrow>
        (\<exists>r. alphabeta_fuel n b al be d = Some (r, b)))
   \<and> (lm \<noteq> 0 \<and> lm AND get_legal_moves b = lm \<longrightarrow>
        popcount (get_legal_moves (make_move b (blsi_u64 lm))) < popcount (get_legal_moves b))"
proof -
  have "popcount (get_legal_moves (make_move b (blsi_u64 lm))) < popcount (get_legal_moves b)"
    if "lm \<noteq> 0" "lm AND get_legal_moves b = lm"
    using that blsi_u64_nonzero[of lm] sub_bits[of lm "get_legal_moves b"] blsi_sub[of lm]
    by (intro empties_decrease) auto
  then show ?thesis
    using alphabeta_total[of b al be d] empties_le_9[of b] alphabeta_returns(1)[of b n al be d]
    by blast
qed

theorem alphabeta_terminates_witness:
  "popcount (get_legal_moves \<lparr>cross = 99, circle = 28, cross_to_move = False\<rparr>) < 3
   \<and> (384 :: Bitboard) \<noteq> 0
   \<and> 384 AND get_legal_moves \<lparr>cross = 99, circle = 28, cross_to_move = False\<rparr> = 384
   \<and> (\<exists>r. alphabeta_fuel 3 \<lparr>cross = 99, circle = 28, cross_to_move = False\<rparr> (- 100) 100 0
          = Some (r, \<lparr>cross = 99, circle = 28, cross_to_move = False\<rparr>))
   \<and> popcount (get_legal_moves
         (make_move \<lparr>cross = 99, circle = 28, cross_to_move = False\<rparr> (blsi_u64 384)))
       < popcount (get_legal_moves \<lparr>cross = 99, circle = 28, cross_to_move = False\<rparr>)"
proof -
  let ?B = "\<lparr>cross = 99, circle = 28, cross_to_move = False\<rparr>"
  have h1: "popcount (get_legal_moves ?B) < 3" by code_simp
  have h2: "(384 :: Bitboard) \<noteq> 0" by simp
  have h3: "384 AND get_legal_moves ?B = 384" by code_simp
  show ?thesis
    using h1 h2 h3 alphabeta_terminates[of ?B "- 100" 100 0 3 384]
    by blast
qed

section \<open>Positions inside the search\<close>

lemma spec_owned_None:
  "spec_owned cr ci Ls = None \<longleftrightarrow> (\<forall>L\<in>set Ls. \<not> L \<subseteq> cr \<and> \<not> L \<subseteq> ci)"
  by (induction Ls) auto

lemma spec_owned_cross: "spec_owned cr ci Ls = Some CROSS_WON \<Longrightarrow> \<exists>L\<in>set Ls. L \<subseteq> cr"
  by (induction Ls) (auto split: if_splits)

lemma spec_owned_circle: "spec_owned cr ci Ls = Some CIRCLE_WON \<Longrightarrow> \<exists>L\<in>set Ls. L \<subseteq> ci"
  by (induction Ls) (auto split: if_splits)

lemma spec_owned_range: "spec_owned cr ci Ls = Some s \<Longrightarrow> s = CROSS_WON \<or> s = CIRCLE_WON"
  by (induction Ls) (auto split: if_splits)

lemma in_progress_iff:
  "check_status b = IN_PROGRESS \<longleftrightarrow>
     spec_owned (cells (cross b)) (cells (circle b)) lines = None
     \<and> (\<exists>L\<in>set lines. completable (cells (cross b)) (cells (circle b)) L
                  \<or> completable (cells (circle b)) (cells (cross b)) L)"
  using spec_owned_range[of "cells (cross b)" "cells (circle b)" lines]
  by (auto simp: check_status_spec spec_check_status_def split: option.splits)

lemma lines_bound: "L \<in> set lines \<Longrightarrow> c \<in> L \<Longrightarrow> c < 9"
  by (auto simp: lines_def)

lemma in_progress_has_move:
  assumes "check_status b = IN_PROGRESS"
  shows "get_legal_moves b \<noteq> 0"
proof -
  from assms obtain L where L: "L \<in> set lines"
    and nx: "\<not> L \<subseteq> cells (cross b)" and no: "\<not> L \<subseteq> cells (circle b)"
    and c: "completable (cells (cross b)) (cells (circle b)) L
            \<or> completable (cells (circle b)) (cells (cross b)) L"
    by (auto simp: in_progress_iff spec_owned_None)
  from c nx no obtain i where "i \<in> L" "i \<notin> cells (cross b)" "i \<notin> cells (circle b)"
    by (auto simp: completable_def)
  with lines_bound[OF L] have "bit (get_legal_moves b) i"
    by (simp add: legal_bit cells_iff)
  then show ?thesis by auto
qed

lemma sound_after_move:
  assumes "check_status b = IN_PROGRESS"
  shows "sound (make_move b m)"
proof -
  from assms have n: "\<forall>L\<in>set lines. \<not> L \<subseteq> cells (cross b) \<and> \<not> L \<subseteq> cells (circle b)"
    by (simp add: in_progress_iff spec_owned_None)
  show ?thesis
  proof (cases "cross_to_move b")
    case True
    then have "circle (make_move b m) = circle b" "\<not> cross_to_move (make_move b m)"
      by (simp_all add: make_move_def Let_def)
    with n spec_owned_circle[of "cells (cross (make_move b m))" "cells (circle b)" lines]
    show ?thesis
      by (auto simp: sound_def check_status_spec spec_check_status_def split: option.splits if_splits)
  next
    case False
    then have "cross (make_move b m) = cross b" "cross_to_move (make_move b m)"
      by (simp_all add: make_move_def Let_def)
    with n spec_owned_cross[of "cells (cross b)" "cells (circle (make_move b m))" lines]
    show ?thesis
      by (auto simp: sound_def check_status_spec spec_check_status_def split: option.splits if_splits)
  qed
qed

lemma alphabeta_range:
  "sound b \<Longrightarrow> al \<in> {- 100, - 1, 0, 1} \<Longrightarrow> be \<in> {- 1, 0, 1, 100} \<Longrightarrow>
     alphabeta_fuel n b al be d = Some (r, b') \<Longrightarrow> r \<in> {- 1, 0, 1}"
  "check_status b = IN_PROGRESS \<Longrightarrow> al \<in> {- 100, - 1, 0, 1} \<Longrightarrow> be \<in> {- 1, 0, 1, 100} \<Longrightarrow>
     alphabeta_loop n b lm al be d = Some (r, b') \<Longrightarrow> al \<noteq> - 100 \<or> lm \<noteq> 0 \<Longrightarrow> r \<in> {- 1, 0, 1}"
proof (induction n b al be d and n b lm al be d arbitrary: r b' and r b'
       rule: alphabeta_fuel_alphabeta_loop.induct)
  case (1 board alpha beta depth)
  then show ?case by simp
next
  case (2 n board alpha beta depth)
  show ?case
  proof (cases "check_status board")
    case IN_PROGRESS
    with 2 in_progress_has_move[OF IN_PROGRESS] show ?thesis by simp
  qed (use 2 in \<open>auto simp: sound_def\<close>)
next
  case (3 n board legal_moves alpha beta depth)
  show ?case
  proof (cases "legal_moves = 0")
    case True
    with 3(6,7,4) show ?thesis by (auto simp: alphabeta_loop_zero)
  next
    case False
    let ?m = "blsi_u64 legal_moves"
    from False 3(6) obtain r1 b2 where
      c: "alphabeta_fuel n (make_move board ?m) (- beta) (- alpha) (depth + 1) = Some (r1, b2)"
      by (auto simp: alphabeta_loop_step split: option.splits)
    have w: "- beta \<in> {- 100, - 1, 0, 1}" "- alpha \<in> {- 1, 0, 1, 100}"
      using 3(4,5) by auto
    from 3(1)[OF False refl refl sound_after_move[OF 3(3)] w c]
    have r1: "r1 \<in> {- 1, 0, 1}" .
    show ?thesis
    proof (cases "- r1 \<ge> beta")
      case True
      with False c 3(6) have "r = beta" by (simp add: alphabeta_loop_step)
      with True r1 3(5) show ?thesis by auto
    next
      case ge: False
      let ?a = "if - r1 > alpha then - r1 else alpha"
      from False c 3(6) ge have
        l: "alphabeta_loop n (unmake_move b2 ?m) (blsr_u64 legal_moves) ?a beta depth = Some (r, b')"
        by (simp add: alphabeta_loop_step)
      have b2: "unmake_move b2 ?m = board"
        using alphabeta_board(1)[OF c] by (simp add: unmake_make_move)
      have a: "?a \<in> {- 100, - 1, 0, 1}" "?a \<noteq> - 100" using r1 3(4) by auto
      from 3(2)[OF False refl refl c refl refl refl ge _ a(1) 3(5) l] 3(3) b2 a(2)
      show ?thesis by simp
    qed
  qed
qed

section \<open>The loop over the moves in the bot\<close>

lemma move_score_range:
  assumes "check_status b = IN_PROGRESS"
  shows "\<exists>r\<in>{- 1, 0, 1}. alphabeta (make_move b m) (- 100) 100 0 = Some (- r, make_move b m)
            \<and> move_score b m = Some r"
proof -
  from alphabeta_total[of "make_move b m" "- 100" 100 0] obtain r where
    r: "alphabeta (make_move b m) (- 100) 100 0 = Some (r, make_move b m)" by blast
  from alphabeta_range(1)[OF sound_after_move[OF assms], of "- 100" 100 10 m 0 r "make_move b m"] r
  have "r \<in> {- 1, 0, 1}" by (simp add: alphabeta_def)
  with r show ?thesis by (auto simp: move_score_def)
qed

lemma best_loop_zero: "best_loop b 0 bm bs = Some (bm, bs, b)"
  by (simp add: best_loop.simps)

lemma best_loop_step:
  "lm \<noteq> 0 \<Longrightarrow> alphabeta (make_move b (blsi_u64 lm)) (- 100) 100 0
       = Some (r, make_move b (blsi_u64 lm)) \<Longrightarrow>
   best_loop b lm bm bs =
     (if - r > bs then best_loop b (blsr_u64 lm) (blsi_u64 lm) (- r)
      else if - r = bs then best_loop b (blsr_u64 lm) (bm OR blsi_u64 lm) bs
      else best_loop b (blsr_u64 lm) bm bs)"
  by (subst best_loop.simps) (simp add: Let_def unmake_make_move)

lemma bits_blsr:
  assumes "lm \<noteq> 0" "blsi_u64 lm = 2 ^ k" "k < 16"
  shows "{i. bit lm i} = insert k {i. bit (blsr_u64 lm) i}" "\<not> bit (blsr_u64 lm) k"
  using blsi_blsr_partition[of lm] assms(2,3)
  by (auto simp: bit_exp_iff)

lemma finite_bits: "finite {i. bit (w :: Bitboard) i}"
proof -
  have "{i. bit w i} \<subseteq> {..<16}" by (auto dest: bit_imp_le_length)
  then show ?thesis by (rule finite_subset) simp
qed

lemma max_acc:
  assumes "finite A"
  shows "max s (Max (insert x A)) = Max (insert (max x s) A)"
proof (cases "A = {}")
  case True
  then show ?thesis by (simp add: max.commute)
next
  case False
  with assms show ?thesis by (simp add: max.assoc max.left_commute max.commute)
qed

lemma best_loop_result:
  assumes ip: "check_status b = IN_PROGRESS"
  shows "\<exists>bm' bs'. best_loop b lm bm bs = Some (bm', bs', b)
     \<and> bs' = Max (insert bs ((\<lambda>i. the (move_score b (2 ^ i))) ` {i. bit lm i}))
     \<and> (\<forall>i. bit bm' i \<longleftrightarrow> (bit lm i \<and> the (move_score b (2 ^ i)) = bs') \<or> (bit bm i \<and> bs = bs'))"
proof (induction lm arbitrary: bm bs rule: measure_induct_rule[where f = unat])
  case (less lm)
  let ?f = "\<lambda>i. the (move_score b (2 ^ i))"
  show ?case
  proof (cases "lm = 0")
    case True
    then show ?thesis by (simp add: best_loop_zero)
  next
    case False
    from blsi_u64_single[OF False] obtain k where
      k: "k < 16" "blsi_u64 lm = 2 ^ k" "bit lm k" by blast
    from move_score_range[OF ip, of "2 ^ k"] obtain s where
      s: "alphabeta (make_move b (2 ^ k)) (- 100) 100 0 = Some (- s, make_move b (2 ^ k))"
         "move_score b (2 ^ k) = Some s" by blast
    have fk: "?f k = s" using s(2) by simp
    let ?R = "{i. bit (blsr_u64 lm) i}"
    have bits: "{i. bit lm i} = insert k ?R" and nk: "\<not> bit (blsr_u64 lm) k"
      using bits_blsr[OF False k(2) k(1)] by auto
    have fin: "finite (?f ` ?R)" using finite_bits by auto
    have mx: "Max (insert x (?f ` {i. bit lm i})) = max s (Max (insert x (?f ` ?R)))" for x
      using fin by (simp add: bits fk insert_commute)
    have mx': "Max (insert x (?f ` {i. bit lm i})) = Max (insert (max x s) (?f ` ?R))" for x
      using mx[of x] max_acc[OF fin, of s x] by simp
    have ge: "x \<le> Max (insert x (?f ` ?R))" for x using fin by simp
    have bk: "bit (2 ^ k :: Bitboard) i \<longleftrightarrow> i = k" for i using k(1) by (auto simp: bit_exp_iff)
    note IH = less.IH[OF blsr_u64_less[OF False]]
    have step: "best_loop b lm bm bs =
     (if s > bs then best_loop b (blsr_u64 lm) (2 ^ k) s
      else if s = bs then best_loop b (blsr_u64 lm) (bm OR 2 ^ k) bs
      else best_loop b (blsr_u64 lm) bm bs)"
      using best_loop_step[OF False, of b "- s" bm bs] s(1) k(2) by simp
    have bitsp: "bit lm i \<longleftrightarrow> i = k \<or> bit (blsr_u64 lm) i" for i
      using bits by auto
    consider "s > bs" | "s = bs" | "s < bs" by linarith
    then show ?thesis
    proof cases
      case 1
      from IH[of "2 ^ k" s] obtain bm' bs' where
        r: "best_loop b (blsr_u64 lm) (2 ^ k) s = Some (bm', bs', b)"
           "bs' = Max (insert s (?f ` ?R))"
           "\<And>i. bit bm' i \<longleftrightarrow> (bit (blsr_u64 lm) i \<and> ?f i = bs') \<or> (bit (2 ^ k :: Bitboard) i \<and> s = bs')"
        by blast
      have sb: "s \<le> bs'" using ge[of s] r(2) by simp
      have e: "Max (insert bs (?f ` {i. bit lm i})) = bs'"
        using 1 unfolding mx' r(2) by (simp add: max_def)
      have n: "bs \<noteq> bs'" using 1 sb by linarith
      have "bit bm' i \<longleftrightarrow> (bit lm i \<and> ?f i = bs') \<or> (bit bm i \<and> bs = bs')" for i
        using r(3)[of i] bitsp[of i] fk n nk by (auto simp: bk)
      with 1 step r(1) e show ?thesis by auto
    next
      case 2
      from IH[of "bm OR 2 ^ k" bs] obtain bm' bs' where
        r: "best_loop b (blsr_u64 lm) (bm OR 2 ^ k) bs = Some (bm', bs', b)"
           "bs' = Max (insert bs (?f ` ?R))"
           "\<And>i. bit bm' i \<longleftrightarrow> (bit (blsr_u64 lm) i \<and> ?f i = bs') \<or> (bit (bm OR 2 ^ k) i \<and> bs = bs')"
        by blast
      have e: "Max (insert bs (?f ` {i. bit lm i})) = bs'"
        using 2 unfolding mx' r(2) by (simp add: max_def)
      have "bit bm' i \<longleftrightarrow> (bit lm i \<and> ?f i = bs') \<or> (bit bm i \<and> bs = bs')" for i
        using r(3)[of i] bitsp[of i] fk 2 nk by (auto simp: bk bit_or_iff)
      with 2 step r(1) e show ?thesis by auto
    next
      case 3
      from IH[of bm bs] obtain bm' bs' where
        r: "best_loop b (blsr_u64 lm) bm bs = Some (bm', bs', b)"
           "bs' = Max (insert bs (?f ` ?R))"
           "\<And>i. bit bm' i \<longleftrightarrow> (bit (blsr_u64 lm) i \<and> ?f i = bs') \<or> (bit bm i \<and> bs = bs')"
        by blast
      have e: "Max (insert bs (?f ` {i. bit lm i})) = bs'"
        using 3 unfolding mx' r(2) by (simp add: max_def)
      have n: "s \<noteq> bs'" using 3 ge[of bs] r(2) by linarith
      have "bit bm' i \<longleftrightarrow> (bit lm i \<and> ?f i = bs') \<or> (bit bm i \<and> bs = bs')" for i
        using r(3)[of i] bitsp[of i] fk n nk by (auto simp: bk)
      with 3 step r(1) e show ?thesis by auto
    qed
  qed
qed

lemma bot_search_result:
  assumes ip: "check_status b = IN_PROGRESS"
  shows "\<exists>best s. bot_search b = Some (best, s, b) \<and> s \<in> {- 1, 0, 1}
     \<and> (\<exists>i. bit best i)
     \<and> (\<forall>i. bit best i \<longleftrightarrow> bit (get_legal_moves b) i \<and> move_score b (2 ^ i) = Some s)
     \<and> (\<forall>i. bit (get_legal_moves b) i \<longrightarrow> (\<exists>s'. move_score b (2 ^ i) = Some s' \<and> s' \<le> s))"
proof -
  let ?f = "\<lambda>i. the (move_score b (2 ^ i))"
  let ?L = "{i. bit (get_legal_moves b) i}"
  from best_loop_result[OF ip, of "get_legal_moves b" 0 "- 100"] obtain best s where
    r: "bot_search b = Some (best, s, b)" "s = Max (insert (- 100) (?f ` ?L))"
       "\<And>i. bit best i \<longleftrightarrow> (bit (get_legal_moves b) i \<and> ?f i = s) \<or> (bit (0 :: Bitboard) i \<and> - 100 = s)"
    unfolding bot_search_def by blast
  have f: "move_score b (2 ^ i) = Some (?f i) \<and> ?f i \<in> {- 1, 0, 1}" for i
    using move_score_range[OF ip, of "2 ^ i"] by auto
  from in_progress_has_move[OF ip] obtain k where k: "bit (get_legal_moves b) k"
    by (auto simp: bit_eq_iff)
  have fin: "finite (insert (- 100) (?f ` ?L))" using finite_bits by simp
  have sin: "s \<in> insert (- 100) (?f ` ?L)" unfolding r(2) using fin by (intro Max_in) auto
  have "?f k \<le> s" unfolding r(2) using fin k by (intro Max_ge) auto
  with f[of k] have "s \<noteq> - 100" by auto
  with sin obtain j where j: "bit (get_legal_moves b) j" "s = ?f j" by auto
  have ub: "?f i \<le> s" if "bit (get_legal_moves b) i" for i
    unfolding r(2) using fin that by (intro Max_ge) auto
  have "bit best j" using r(3)[of j] j by simp
  moreover have "s \<in> {- 1, 0, 1}" using j(2) f[of j] by simp
  moreover have "bit best i \<longleftrightarrow> bit (get_legal_moves b) i \<and> move_score b (2 ^ i) = Some s" for i
    using r(3)[of i] f[of i] by auto
  moreover have "\<exists>s'. move_score b (2 ^ i) = Some s' \<and> s' \<le> s" if "bit (get_legal_moves b) i" for i
    using ub[OF that] f[of i] by auto
  ultimately show ?thesis using r(1) by blast
qed

lemma and_exp_ne_0: "i < 16 \<Longrightarrow> ((2 ^ i :: Bitboard) AND w \<noteq> 0) = bit w i"
  by (simp add: and.commute and_exp_eq_0_iff_not_bit)

lemma card_below_Suc:
  "card {k. k < Suc i \<and> P k} = card {k. k < i \<and> P k} + (if P i then 1 else 0)"
proof -
  have fin: "finite {k. k < i \<and> P k}" by simp
  have "{k. k < Suc i \<and> P k} = (if P i then insert i {k. k < i \<and> P k} else {k. k < i \<and> P k})"
    by (auto simp: less_Suc_eq)
  then show ?thesis using fin by simp
qed

lemma select_loop_result:
  assumes "i \<le> 9" "msk = 2 ^ i" "c = int (card {k. k < i \<and> bit bm k})" "c < des"
    "des \<le> int (card {k. k < 9 \<and> bit bm k})"
  shows "\<exists>j. i \<le> j \<and> j < 9 \<and> select_loop bm des (int i) msk c = 2 ^ j \<and> bit bm j
            \<and> int (card {k. k < j \<and> bit bm k}) = des - 1"
  using assms
proof (induction "9 - i" arbitrary: i msk c)
  case 0
  then have "i = 9" by simp
  with 0 show ?case by simp
next
  case (Suc n)
  then have i9: "i < 9" by simp
  let ?c1 = "if bit bm i then c + 1 else c"
  have unf: "select_loop bm des (int i) msk c =
      (if des = ?c1 then msk else select_loop bm des (int (Suc i)) (2 ^ Suc i) ?c1)"
    using i9 Suc.prems(2) and_exp_ne_0[of i bm]
    by (subst select_loop.simps) (simp add: Let_def push_bit_eq_mult add.commute mult.commute)
  show ?case
  proof (cases "des = ?c1")
    case True
    with Suc.prems(4) have bi: "bit bm i" by (auto split: if_splits)
    with True Suc.prems(3) have "int (card {k. k < i \<and> bit bm k}) = des - 1" by simp
    with unf True bi i9 Suc.prems(2) show ?thesis by auto
  next
    case False
    have c1: "?c1 = int (card {k. k < Suc i \<and> bit bm k})"
      using Suc.prems(3) by (simp add: card_below_Suc)
    have lt: "?c1 < des" using False Suc.prems(4) by (auto split: if_splits)
    have "n = 9 - Suc i" using Suc.hyps(2) by simp
    from Suc.hyps(1)[OF this _ refl c1 lt Suc.prems(5)] i9 obtain j where
      "Suc i \<le> j" "j < 9" "select_loop bm des (int (Suc i)) (2 ^ Suc i) ?c1 = 2 ^ j" "bit bm j"
      "int (card {k. k < j \<and> bit bm k}) = des - 1" by auto
    with unf False show ?thesis by (intro exI[of _ j]) auto
  qed
qed

section \<open>The move the bot returns\<close>

lemma popcount_bits: "popcount w = card {k. bit w k}"
proof -
  have "cells w = {k. bit w k}" by (auto simp: cells_iff)
  then show ?thesis by (simp add: popcount_card)
qed

lemma uniform_int_distribution_range:
  "a \<le> b \<Longrightarrow> a \<le> uniform_int_distribution a b e \<and> uniform_int_distribution a b e \<le> b"
  by (simp add: uniform_int_distribution_def) (smt (verit) pos_mod_bound pos_mod_sign)

lemma uniform_int_distribution_onto:
  assumes "a \<le> v" "v \<le> b"
  shows "uniform_int_distribution a b (nat (v - a)) = v"
  using assms by (simp add: uniform_int_distribution_def)

lemma choose_move_result:
  assumes ip: "check_status b = IN_PROGRESS"
  shows "\<exists>best s j. bot_search b = Some (best, s, b) \<and> choose_move b e = Some (2 ^ j) \<and> j < 9
       \<and> bit best j
       \<and> (popcount best \<ge> 2 \<longrightarrow>
            int (card {k. k < j \<and> bit best k})
              = uniform_int_distribution 1 (int (popcount best) - 1) e - 1)"
proof -
  from bot_search_result[OF ip] obtain best s j0 where
    r: "bot_search b = Some (best, s, b)" "bit best j0"
       "\<And>i. bit best i \<longleftrightarrow> bit (get_legal_moves b) i \<and> move_score b (2 ^ i) = Some s"
    by blast
  have lt9: "bit best i \<Longrightarrow> i < 9" for i using r(3)[of i] by (simp add: legal_bit)
  have c9: "{k. bit best k} = {k. k < 9 \<and> bit best k}" using lt9 by auto
  show ?thesis
  proof (cases "popcount best \<ge> 2")
    case False
    have fin: "finite {k. bit best k}" by (rule finite_bits)
    have "card {k. bit best k} \<le> 1" using False by (simp add: popcount_bits)
    moreover have "j0 \<in> {k. bit best k}" using r(2) by simp
    ultimately have "{k. bit best k} = {j0}" using fin
      by (metis card_le_Suc0_iff_eq One_nat_def empty_iff insertI1 is_singletonI' is_singleton_the_elem singletonD)
    then have "bit best i \<longleftrightarrow> i = j0" for i by auto
    then have "best = 2 ^ j0" using lt9[OF r(2)]
      by (intro bit_eqI) (auto simp: bit_exp_iff)
    moreover have "choose_move b e = Some best" using False r(1) by (simp add: choose_move_def)
    ultimately show ?thesis using r(1,2) lt9[OF r(2)] False by auto
  next
    case True
    let ?d = "uniform_int_distribution 1 (int (popcount best) - 1) e"
    from True uniform_int_distribution_range[of 1 "int (popcount best) - 1" e]
    have d: "1 \<le> ?d" "?d \<le> int (popcount best) - 1" by auto
    have "?d \<le> int (card {k. k < 9 \<and> bit best k})"
      using d(2) c9 by (simp add: popcount_bits)
    from select_loop_result[of 0 1 0 best ?d, OF _ _ _ _ this] d(1) obtain j where
      j: "j < 9" "select_loop best ?d 0 1 0 = 2 ^ j" "bit best j"
         "int (card {k. k < j \<and> bit best k}) = ?d - 1" by auto
    have "choose_move b e = Some (2 ^ j)" using True r(1) j(2) by (simp add: choose_move_def Let_def)
    with r(1) j show ?thesis by blast
  qed
qed

text \<open>
  C2: on every in-progress board there is a legal move, and for every draw \<open>e\<close> of the
  random source \<open>choose_move\<close> returns a single legal cell whose search score (the negated
  value of \<open>alphabeta\<close> on the position after the move, window \<open>(-100, 100)\<close>, depth 0) is
  the bot's best score and is the maximum of the search scores of all legal moves.  In
  particular a legal move that scores less than some other legal move (a losing move when
  a safe one exists) is never returned.
\<close>

theorem choose_move_maximal:
  assumes "check_status b = IN_PROGRESS"
  shows "get_legal_moves b \<noteq> 0
   \<and> (\<exists>i s. choose_move b e = Some (2 ^ i) \<and> i < 9 \<and> bit (get_legal_moves b) i
          \<and> move_score b (2 ^ i) = Some s
          \<and> (\<exists>best. bot_search b = Some (best, s, b))
          \<and> (\<forall>j. bit (get_legal_moves b) j \<longrightarrow>
                 (\<exists>s'. move_score b (2 ^ j) = Some s' \<and> s' \<le> s
                       \<and> (s' < s \<longrightarrow> choose_move b e \<noteq> Some (2 ^ j)))))"
proof -
  from choose_move_result[OF assms, of e] obtain best s i where
    c: "bot_search b = Some (best, s, b)" "choose_move b e = Some (2 ^ i)" "i < 9" "bit best i"
    by blast
  from bot_search_result[OF assms] c(1) have
    b: "\<And>i. bit best i \<longleftrightarrow> bit (get_legal_moves b) i \<and> move_score b (2 ^ i) = Some s"
       "\<And>i. bit (get_legal_moves b) i \<Longrightarrow> (\<exists>s'. move_score b (2 ^ i) = Some s' \<and> s' \<le> s)"
    by auto
  have i: "bit (get_legal_moves b) i" "move_score b (2 ^ i) = Some s" using b(1)[of i] c(4) by auto
  have "\<exists>s'. move_score b (2 ^ j) = Some s' \<and> s' \<le> s
                       \<and> (s' < s \<longrightarrow> choose_move b e \<noteq> Some (2 ^ j))"
    if "bit (get_legal_moves b) j" for j
  proof -
    from b(2)[OF that] obtain s' where s': "move_score b (2 ^ j) = Some s'" "s' \<le> s" by blast
    have "choose_move b e \<noteq> Some (2 ^ j)" if "s' < s"
    proof
      assume "choose_move b e = Some (2 ^ j)"
      with c(2) have "(2 :: Bitboard) ^ j = 2 ^ i" by simp
      with s'(1) i(2) that show False by simp
    qed
    with s' show ?thesis by blast
  qed
  with c i in_progress_has_move[OF assms] show ?thesis by blast
qed


theorem choose_move_maximal_witness:
  "check_status \<lparr>cross = 13, circle = 82, cross_to_move = True\<rparr> = IN_PROGRESS
   \<and> get_legal_moves \<lparr>cross = 13, circle = 82, cross_to_move = True\<rparr> = 32 + 128 + 256
   \<and> move_score \<lparr>cross = 13, circle = 82, cross_to_move = True\<rparr> 32 = Some (- 1)
   \<and> move_score \<lparr>cross = 13, circle = 82, cross_to_move = True\<rparr> 128 = Some 0
   \<and> move_score \<lparr>cross = 13, circle = 82, cross_to_move = True\<rparr> 256 = Some (- 1)
   \<and> choose_move \<lparr>cross = 13, circle = 82, cross_to_move = True\<rparr> 0 = Some 128
   \<and> (\<exists>i s. choose_move \<lparr>cross = 13, circle = 82, cross_to_move = True\<rparr> 5 = Some (2 ^ i)
          \<and> bit (get_legal_moves \<lparr>cross = 13, circle = 82, cross_to_move = True\<rparr>) i
          \<and> move_score \<lparr>cross = 13, circle = 82, cross_to_move = True\<rparr> (2 ^ i) = Some s)"
proof -
  let ?B = "\<lparr>cross = 13, circle = 82, cross_to_move = True\<rparr>"
  have h: "check_status ?B = IN_PROGRESS" by code_simp
  have l: "get_legal_moves ?B = 32 + 128 + 256" by code_simp
  have m1: "move_score ?B 32 = Some (- 1)" by code_simp
  have m2: "move_score ?B 128 = Some 0" by code_simp
  have m3: "move_score ?B 256 = Some (- 1)" by code_simp
  have c: "choose_move ?B 0 = Some 128" by code_simp
  from choose_move_maximal[OF h, of 5]
  have "\<exists>i s. choose_move ?B 5 = Some (2 ^ i) \<and> bit (get_legal_moves ?B) i
          \<and> move_score ?B (2 ^ i) = Some s" by blast
  with h l m1 m2 m3 c show ?thesis by blast
qed

text \<open>
  When two or more moves tie for the best score, the drawn index ranges over
  \<open>1 .. move_count - 1\<close>, so the tied move on the highest cell is never selected.
\<close>

lemma choose_move_skips_highest:
  assumes ip: "check_status b = IN_PROGRESS"
    and bs: "bot_search b = Some (best, s, b')"
    and two: "popcount best \<ge> 2"
    and h: "bit best h" "\<forall>k. bit best k \<longrightarrow> k \<le> h"
  shows "choose_move b e \<noteq> Some (2 ^ h)"
proof
  assume a: "choose_move b e = Some (2 ^ h)"
  let ?d = "uniform_int_distribution 1 (int (popcount best) - 1) e"
  from choose_move_result[OF ip, of e] bs two obtain j where
    j: "choose_move b e = Some (2 ^ j)" "j < 9" "bit best j"
       "int (card {k. k < j \<and> bit best k}) = ?d - 1" by auto
  have h16: "h < 16" using h(1) by (auto dest: bit_imp_le_length)
  from a j(1) have "(2 :: Bitboard) ^ j = 2 ^ h" by simp
  then have "bit (2 ^ j :: Bitboard) j = bit (2 ^ h :: Bitboard) j" by simp
  with j(2) h16 have jh: "j = h" by (simp add: bit_exp_iff)
  have "{k. bit best k} = insert h {k. k < h \<and> bit best k}"
    using h by (auto simp: le_less)
  then have "card {k. bit best k} = Suc (card {k. k < h \<and> bit best k})"
    by (metis (no_types, lifting) card_insert_disjoint finite_bits finite_insert mem_Collect_eq
        less_irrefl)
  with j(4) jh have "?d = int (popcount best)" by (simp add: popcount_bits)
  with uniform_int_distribution_range[of 1 "int (popcount best) - 1" e] two
  show False by simp
qed

text \<open>
  C3 (the code departs from it): on the board with cross on 0, 1, 5, 6 and circle on
  2, 3, 4, circle to move, the moves to cell 7 and to cell 8 are both legal and tie for the
  best score 0 (\<open>best_move = 0b110000000\<close>), yet for every draw \<open>e\<close> of the random source
  \<open>choose_move\<close> returns cell 7: the distribution is set up over \<open>1 .. move_count - 1\<close>,
  here \<open>1 .. 1\<close>.  Cell 8 is returned with probability zero.
\<close>

theorem choose_move_never_highest:
  "bot_search \<lparr>cross = 99, circle = 28, cross_to_move = False\<rparr>
     = Some (384, 0, \<lparr>cross = 99, circle = 28, cross_to_move = False\<rparr>)
   \<and> move_score \<lparr>cross = 99, circle = 28, cross_to_move = False\<rparr> 128 = Some 0
   \<and> move_score \<lparr>cross = 99, circle = 28, cross_to_move = False\<rparr> 256 = Some 0
   \<and> (\<forall>e. choose_move \<lparr>cross = 99, circle = 28, cross_to_move = False\<rparr> e = Some 128)"
proof -
  let ?B = "\<lparr>cross = 99, circle = 28, cross_to_move = False\<rparr>"
  have b: "bot_search ?B = Some (384, 0, ?B)" by code_simp
  have m1: "move_score ?B 128 = Some 0" by code_simp
  have m2: "move_score ?B 256 = Some 0" by code_simp
  have p: "popcount 384 = 2" by code_simp
  have u: "uniform_int_distribution 1 1 e = 1" for e
    by (simp add: uniform_int_distribution_def)
  have s: "select_loop 384 1 0 1 0 = 128" by code_simp
  have "choose_move ?B e = Some 128" for e
    by (simp add: choose_move_def b p u s)
  with b m1 m2 show ?thesis by blast
qed

section \<open>The calls of the search\<close>

lemma loop_state_inv:
  assumes "loop_state b al be d st" "check_status b = IN_PROGRESS"
    "al \<in> {- 100, - 1, 0, 1}" "be \<in> {- 1, 0, 1, 100}"
  shows "snd st \<in> {- 100, - 1, 0, 1}"
  using assms
proof (induction rule: loop_state.induct)
  case init
  then show ?case by simp
next
  case (step lm a r b')
  have "- be \<in> {- 100, - 1, 0, 1}" "- a \<in> {- 1, 0, 1, 100}" using step by auto
  from alphabeta_range(1)[OF sound_after_move[OF step.prems(1)] this,
      of 10 "blsi_u64 lm" "d + 1" r b'] step.hyps(3)
  have "r \<in> {- 1, 0, 1}" by (simp add: alphabeta_def)
  with step show ?case by auto
qed

lemma search_call_inv:
  assumes "search_call root c" "check_status root = IN_PROGRESS"
  shows "sound (fst c) \<and> fst (snd c) \<in> {- 100, - 1, 0, 1} \<and> fst (snd (snd c)) \<in> {- 1, 0, 1, 100}"
  using assms
proof (induction rule: search_call.induct)
  case (top lm)
  then show ?case by (simp add: sound_after_move)
next
  case (nested b al be d lm a)
  then have "al \<in> {- 100, - 1, 0, 1}" "be \<in> {- 1, 0, 1, 100}" by auto
  from loop_state_inv[OF nested.hyps(3,2) this] this(2)
  show ?case by (auto simp: sound_after_move[OF nested.hyps(2)])
qed

text \<open>
  In every call the depth is between 0 and 8 (and the bounds of the window are among
  \<open>-100, -1, 0, 1, 100\<close> by \<open>search_call_inv\<close>), so the arithmetic of the search stays far
  inside the range of a 32-bit \<^verbatim>\<open>int\<close> and the model is exact on all of the bot's search.
\<close>

lemma top_state_sub: "top_state root lm \<Longrightarrow> bit lm i \<Longrightarrow> bit (get_legal_moves root) i"
  by (induction rule: top_state.induct) (auto dest: blsr_sub)

lemma loop_state_sub:
  "loop_state b al be d st \<Longrightarrow> bit (fst st) i \<Longrightarrow> bit (get_legal_moves b) i"
  by (induction rule: loop_state.induct) (auto dest: blsr_sub)

lemma search_call_bounds:
  assumes "search_call root c"
  shows "0 \<le> snd (snd (snd c))
     \<and> snd (snd (snd c)) + int (popcount (get_legal_moves (fst c))) \<le> 8"
  using assms
proof (induction rule: search_call.induct)
  case (top lm)
  have "popcount (get_legal_moves (make_move root (blsi_u64 lm))) < popcount (get_legal_moves root)"
    using top blsi_u64_nonzero[of lm] top_state_sub[OF top(1)] blsi_sub[of lm]
    by (intro empties_decrease) auto
  with empties_le_9[of root] show ?case by simp
next
  case (nested b al be d lm a)
  have "popcount (get_legal_moves (make_move b (blsi_u64 lm))) < popcount (get_legal_moves b)"
    using nested.hyps(4) blsi_u64_nonzero[of lm] loop_state_sub[OF nested.hyps(3)] blsi_sub[of lm]
    by (intro empties_decrease) auto
  with nested.IH show ?case by simp
qed

text \<open>
  C8: let the bot search an in-progress board.  At every position on which the search
  calls \<open>alphabeta\<close> (each arises by a move from an in-progress position), a won status
  means that the side to move is the side that lost, so the call returns \<open>-1\<close> and the
  \<open>10 - depth\<close> branch is not taken; every such call returns a value in \<open>{-1, 0, 1}\<close>,
  and so is every per-move score of the bot.
\<close>

theorem search_call_values:
  assumes "check_status root = IN_PROGRESS" "search_call root (b, al, be, d)"
  shows "(check_status b = CROSS_WON \<longrightarrow> \<not> cross_to_move b)
   \<and> (check_status b = CIRCLE_WON \<longrightarrow> cross_to_move b)
   \<and> (check_status b = CROSS_WON \<or> check_status b = CIRCLE_WON \<longrightarrow>
        alphabeta b al be d = Some (- 1, b))
   \<and> (\<exists>r\<in>{- 1, 0, 1}. alphabeta b al be d = Some (r, b))
   \<and> (\<forall>m. \<exists>s\<in>{- 1, 0, 1}. move_score root m = Some s)"
proof -
  from search_call_inv[OF assms(2,1)] have
    s: "sound b" and w: "al \<in> {- 100, - 1, 0, 1}" "be \<in> {- 1, 0, 1, 100}" by auto
  from alphabeta_total[of b al be d] obtain r where r: "alphabeta b al be d = Some (r, b)" by blast
  from alphabeta_range(1)[OF s w, of 10 d r b] r have rr: "r \<in> {- 1, 0, 1}"
    by (simp add: alphabeta_def)
  have t: "alphabeta b al be d = Some (- 1, b)"
    if "check_status b = CROSS_WON \<or> check_status b = CIRCLE_WON"
    using that s by (auto simp: alphabeta_def sound_def eval_nat_numeral)
  have "\<exists>s\<in>{- 1, 0, 1}. move_score root m = Some s" for m
    using move_score_range[OF assms(1), of m] by blast
  with s r rr t show ?thesis unfolding sound_def by blast
qed

theorem search_call_values_witness:
  "check_status \<lparr>cross = 29, circle = 98, cross_to_move = False\<rparr> = IN_PROGRESS
   \<and> search_call \<lparr>cross = 29, circle = 98, cross_to_move = False\<rparr>
        (\<lparr>cross = 285, circle = 226, cross_to_move = False\<rparr>, - 100, 100, 1)
   \<and> check_status \<lparr>cross = 285, circle = 226, cross_to_move = False\<rparr> = CROSS_WON
   \<and> alphabeta \<lparr>cross = 285, circle = 226, cross_to_move = False\<rparr> (- 100) 100 1
        = Some (- 1, \<lparr>cross = 285, circle = 226, cross_to_move = False\<rparr>)
   \<and> move_score \<lparr>cross = 29, circle = 98, cross_to_move = False\<rparr> 128 = Some (- 1)
   \<and> check_status \<lparr>cross = 13, circle = 82, cross_to_move = True\<rparr> = IN_PROGRESS
   \<and> search_call \<lparr>cross = 13, circle = 82, cross_to_move = True\<rparr>
        (\<lparr>cross = 45, circle = 210, cross_to_move = True\<rparr>, - 100, 100, 1)
   \<and> check_status \<lparr>cross = 45, circle = 210, cross_to_move = True\<rparr> = CIRCLE_WON
   \<and> alphabeta \<lparr>cross = 45, circle = 210, cross_to_move = True\<rparr> (- 100) 100 1
        = Some (- 1, \<lparr>cross = 45, circle = 210, cross_to_move = True\<rparr>)"
proof -
  let ?R = "\<lparr>cross = 29, circle = 98, cross_to_move = False\<rparr>"
  let ?C = "\<lparr>cross = 29, circle = 226, cross_to_move = True\<rparr>"
  let ?D = "\<lparr>cross = 285, circle = 226, cross_to_move = False\<rparr>"
  have h: "check_status ?R = IN_PROGRESS" by code_simp
  have hc: "check_status ?C = IN_PROGRESS" by code_simp
  have hd: "check_status ?D = CROSS_WON" by code_simp
  have lr: "get_legal_moves ?R \<noteq> 0" "make_move ?R (blsi_u64 (get_legal_moves ?R)) = ?C"
    by code_simp+
  have lc: "get_legal_moves ?C \<noteq> 0" "make_move ?C (blsi_u64 (get_legal_moves ?C)) = ?D"
    by code_simp+
  have c1: "search_call ?R (?C, - 100, 100, 0)"
    using search_call.top[OF top_state.init lr(1)] lr(2) by simp
  have c2: "search_call ?R (?D, - 100, 100, 1)"
    using search_call.nested[OF c1 hc loop_state.init lc(1)] lc(2) by simp
  have m: "move_score ?R 128 = Some (- 1)" by code_simp
  from search_call_values[OF h c2] hd
  have v: "alphabeta ?D (- 100) 100 1 = Some (- 1, ?D)" by blast
  let ?R' = "\<lparr>cross = 13, circle = 82, cross_to_move = True\<rparr>"
  let ?C' = "\<lparr>cross = 45, circle = 82, cross_to_move = False\<rparr>"
  let ?D' = "\<lparr>cross = 45, circle = 210, cross_to_move = True\<rparr>"
  have h': "check_status ?R' = IN_PROGRESS" by code_simp
  have hc': "check_status ?C' = IN_PROGRESS" by code_simp
  have hd': "check_status ?D' = CIRCLE_WON" by code_simp
  have lr': "get_legal_moves ?R' \<noteq> 0" "make_move ?R' (blsi_u64 (get_legal_moves ?R')) = ?C'"
    by code_simp+
  have lc': "get_legal_moves ?C' \<noteq> 0" "make_move ?C' (blsi_u64 (get_legal_moves ?C')) = ?D'"
    by code_simp+
  have c1': "search_call ?R' (?C', - 100, 100, 0)"
    using search_call.top[OF top_state.init lr'(1)] lr'(2) by simp
  have c2': "search_call ?R' (?D', - 100, 100, 1)"
    using search_call.nested[OF c1' hc' loop_state.init lc'(1)] lc'(2) by simp
  from search_call_values[OF h' c2'] hd'
  have v': "alphabeta ?D' (- 100) 100 1 = Some (- 1, ?D')" by blast
  from h c2 hd m v h' c2' hd' v' show ?thesis by blast
qed

section \<open>The value of a position\<close>

text \<open>
  The value of a position for the side to move when both sides play best moves: 0 for a
  draw, \<open>-1\<close> when the game is won (in the search the side to move is then the one that
  lost), otherwise the best of the negated values of the positions after each legal move.
  It is the yardstick for the search below.
\<close>

lemma exp_move_decrease:
  assumes "bit (get_legal_moves b) i"
  shows "popcount (get_legal_moves (make_move b (2 ^ i))) < popcount (get_legal_moves b)"
proof -
  from assms have i: "i < 16" by (auto dest: bit_imp_le_length)
  then have "(2 :: Bitboard) ^ i \<noteq> 0" by (simp add: exp_eq_zero_iff)
  moreover have "bit (2 ^ i :: Bitboard) k \<Longrightarrow> bit (get_legal_moves b) k" for k
    using assms by (auto simp: bit_exp_iff)
  ultimately show ?thesis by (rule empties_decrease)
qed

function game_value :: "Board \<Rightarrow> int" where
  "game_value b =
     (case check_status b of
        DRAW \<Rightarrow> 0
      | CIRCLE_WON \<Rightarrow> - 1
      | CROSS_WON \<Rightarrow> - 1
      | IN_PROGRESS \<Rightarrow>
          Max ((\<lambda>i. - game_value (make_move b (2 ^ i))) ` {i. bit (get_legal_moves b) i}))"
  by pat_completeness auto
termination
  by (relation "measure (\<lambda>b. popcount (get_legal_moves b))") (auto simp: exp_move_decrease)

declare game_value.simps [simp del]

lemma game_value_in_progress:
  "check_status b = IN_PROGRESS \<Longrightarrow>
   game_value b = Max ((\<lambda>i. - game_value (make_move b (2 ^ i))) ` {i. bit (get_legal_moves b) i})"
  by (subst game_value.simps) simp

lemma game_value_terminal:
  "check_status b = DRAW \<Longrightarrow> game_value b = 0"
  "check_status b = CROSS_WON \<Longrightarrow> game_value b = - 1"
  "check_status b = CIRCLE_WON \<Longrightarrow> game_value b = - 1"
  by (subst game_value.simps; simp)+

lemma legal_nonempty:
  "check_status b = IN_PROGRESS \<Longrightarrow> \<exists>i. bit (get_legal_moves b) i"
  using in_progress_has_move[of b] by (auto simp: bit_eq_iff)

lemma game_value_range: "game_value b \<in> {- 1, 0, 1}"
proof (induction b rule: game_value.induct)
  case (1 b)
  show ?case
  proof (cases "check_status b")
    case IN_PROGRESS
    let ?F = "(\<lambda>i. - game_value (make_move b (2 ^ i))) ` {i. bit (get_legal_moves b) i}"
    have "finite ?F" using finite_bits by simp
    moreover have "?F \<noteq> {}" using legal_nonempty[OF IN_PROGRESS] by auto
    ultimately have "Max ?F \<in> ?F" by (rule Max_in)
    then obtain i where "bit (get_legal_moves b) i" "Max ?F = - game_value (make_move b (2 ^ i))"
      by auto
    with 1[OF IN_PROGRESS, of i] game_value_in_progress[OF IN_PROGRESS] show ?thesis by auto
  qed (simp_all add: game_value_terminal)
qed

lemma game_value_ge_move:
  assumes "check_status b = IN_PROGRESS" "bit (get_legal_moves b) i"
  shows "- game_value (make_move b (2 ^ i)) \<le> game_value b"
  unfolding game_value_in_progress[OF assms(1)]
  using assms(2) finite_bits by (intro Max_ge) auto

lemma game_value_le:
  assumes "check_status b = IN_PROGRESS"
    "\<And>i. bit (get_legal_moves b) i \<Longrightarrow> - game_value (make_move b (2 ^ i)) \<le> v"
  shows "game_value b \<le> v"
  unfolding game_value_in_progress[OF assms(1)]
  using assms(2) finite_bits legal_nonempty[OF assms(1)] by (subst Max_le_iff) auto

section \<open>The search computes the value\<close>

text \<open>
  The result \<open>r\<close> of a search with window \<open>(al, be)\<close> stands for the value \<open>v\<close>: it is the
  value when that lies inside the window, and lies on the same side of the window
  otherwise.
\<close>

definition bounded_by :: "int \<Rightarrow> int \<Rightarrow> int \<Rightarrow> int \<Rightarrow> bool" where
  "bounded_by al be r v = ((v \<le> al \<longrightarrow> r \<le> al) \<and> (al < v \<and> v < be \<longrightarrow> r = v) \<and> (be \<le> v \<longrightarrow> be \<le> r))"

lemma alphabeta_game_value:
  "alphabeta_fuel n b al be d = Some (r, b') \<Longrightarrow> sound b \<Longrightarrow> al < be \<Longrightarrow>
     bounded_by al be r (game_value b)"
  "alphabeta_loop n b lm al be d = Some (r, b') \<Longrightarrow> check_status b = IN_PROGRESS \<Longrightarrow> al < be \<Longrightarrow>
     (let v = Max (insert al ((\<lambda>i. - game_value (make_move b (2 ^ i))) ` {i. bit lm i}))
      in (be \<le> v \<longrightarrow> r = be) \<and> (v < be \<longrightarrow> r = v))"
proof (induction n b al be d and n b lm al be d arbitrary: r b' and r b'
       rule: alphabeta_fuel_alphabeta_loop.induct)
  case (1 board alpha beta depth)
  then show ?case by simp
next
  case (2 n board alpha beta depth)
  show ?case
  proof (cases "check_status board")
    case IN_PROGRESS
    let ?F = "(\<lambda>i. - game_value (make_move board (2 ^ i))) ` {i. bit (get_legal_moves board) i}"
    let ?v = "Max (insert alpha ?F)"
    from 2(2) IN_PROGRESS have
      "alphabeta_loop n board (get_legal_moves board) alpha beta depth = Some (r, b')" by simp
    from 2(1)[OF IN_PROGRESS this IN_PROGRESS 2(4)]
    have l: "beta \<le> ?v \<longrightarrow> r = beta" "?v < beta \<longrightarrow> r = ?v" by (simp_all add: Let_def)
    have fin: "finite ?F" using finite_bits by simp
    have ne: "?F \<noteq> {}" using legal_nonempty[OF IN_PROGRESS] by auto
    have "?v = max alpha (game_value board)"
      using fin ne by (simp add: game_value_in_progress[OF IN_PROGRESS])
    with l 2(4) show ?thesis by (auto simp: bounded_by_def max_def split: if_splits)
  qed (use 2 in \<open>auto simp: sound_def bounded_by_def game_value_terminal\<close>)
next
  case (3 n board legal_moves alpha beta depth)
  let ?g = "\<lambda>i. - game_value (make_move board (2 ^ i))"
  show ?case
  proof (cases "legal_moves = 0")
    case True
    with 3(3,5) show ?thesis by (simp add: alphabeta_loop_zero)
  next
    case False
    from blsi_u64_single[OF False] obtain k where
      k: "k < 16" "blsi_u64 legal_moves = 2 ^ k" "bit legal_moves k" by blast
    let ?m = "blsi_u64 legal_moves"
    let ?c = "make_move board ?m"
    from False 3(3) obtain r1 b2 where
      c: "alphabeta_fuel n ?c (- beta) (- alpha) (depth + 1) = Some (r1, b2)"
      by (auto simp: alphabeta_loop_step split: option.splits)
    have b2: "unmake_move b2 ?m = board"
      using alphabeta_board(1)[OF c] by (simp add: unmake_make_move)
    have "- beta < - alpha" using 3(5) by simp
    from 3(1)[OF False refl refl c sound_after_move[OF 3(4)] this]
    have "bounded_by (- beta) (- alpha) r1 (game_value ?c)" .
    then have bb: "bounded_by (- beta) (- alpha) r1 (game_value (make_move board (2 ^ k)))"
      by (simp only: k(2))
    let ?s = "?g k"
    let ?R = "{i. bit (blsr_u64 legal_moves) i}"
    have fin: "finite (?g ` ?R)" using finite_bits by simp
    have bits: "{i. bit legal_moves i} = insert k ?R"
      using bits_blsr[OF False k(2) k(1)] by simp
    have e1: "insert alpha (?g ` {i. bit legal_moves i}) = insert ?s (insert alpha (?g ` ?R))"
      by (auto simp: bits)
    have mx: "Max (insert alpha (?g ` {i. bit legal_moves i})) = max ?s (Max (insert alpha (?g ` ?R)))"
      unfolding e1 using fin by (intro Max_insert) auto
    define V where "V = Max (insert (max alpha ?s) (?g ` ?R))"
    have v: "Max (insert alpha (?g ` {i. bit legal_moves i})) = V"
      unfolding V_def using mx max_acc[OF fin, of ?s alpha] by simp
    have "max alpha ?s \<le> V"
      unfolding V_def by (rule Max_ge) (use fin in simp_all)
    then have ge: "?s \<le> V" by simp
    show ?thesis
    proof (cases "- r1 \<ge> beta")
      case True
      with False c 3(3) have r: "r = beta" by (simp add: alphabeta_loop_step)
      from True bb 3(5) have "beta \<le> ?s" by (auto simp: bounded_by_def)
      with ge have "beta \<le> V" by linarith
      with r show ?thesis unfolding Let_def v by simp
    next
      case ge': False
      let ?a = "if - r1 > alpha then - r1 else alpha"
      from False c 3(3) ge' have
        l: "alphabeta_loop n (unmake_move b2 ?m) (blsr_u64 legal_moves) ?a beta depth = Some (r, b')"
        by (simp add: alphabeta_loop_step)
      from ge' bb 3(5) have a: "?a = max alpha ?s" "?a < beta"
        by (auto simp: bounded_by_def max_def)
      have ip: "check_status (unmake_move b2 ?m) = IN_PROGRESS" using 3(4) b2 by simp
      from 3(2)[OF False refl refl c refl refl refl ge' l ip a(2)]
      have "(let v = Max (insert ?a (?g ` ?R)) in (beta \<le> v \<longrightarrow> r = beta) \<and> (v < beta \<longrightarrow> r = v))"
        unfolding b2 .
      then show ?thesis unfolding Let_def v a(1) V_def .
    qed
  qed
qed

lemma alphabeta_full_window:
  assumes "sound b"
  shows "alphabeta b (- 100) 100 d = Some (game_value b, b)"
proof -
  from alphabeta_total[of b "- 100" 100 d] obtain r where
    r: "alphabeta b (- 100) 100 d = Some (r, b)" by blast
  from alphabeta_game_value(1)[of 10 b "- 100" 100 d r b] r assms
  have "bounded_by (- 100) 100 r (game_value b)" by (simp add: alphabeta_def)
  with game_value_range[of b] have "r = game_value b" by (auto simp: bounded_by_def)
  with r show ?thesis by simp
qed

lemma move_score_game_value:
  "check_status b = IN_PROGRESS \<Longrightarrow> move_score b m = Some (- game_value (make_move b m))"
  by (simp add: move_score_def alphabeta_full_window[OF sound_after_move])

lemma bot_search_game_value:
  assumes "check_status b = IN_PROGRESS"
  shows "\<exists>best. bot_search b = Some (best, game_value b, b)
          \<and> (\<forall>i. bit best i \<longleftrightarrow> bit (get_legal_moves b) i \<and> - game_value (make_move b (2 ^ i)) = game_value b)"
proof -
  from bot_search_result[OF assms] obtain best s j where
    r: "bot_search b = Some (best, s, b)" "bit best j"
       "\<And>i. bit best i \<longleftrightarrow> bit (get_legal_moves b) i \<and> move_score b (2 ^ i) = Some s"
       "\<And>i. bit (get_legal_moves b) i \<Longrightarrow> (\<exists>s'. move_score b (2 ^ i) = Some s' \<and> s' \<le> s)"
    by blast
  have j: "bit (get_legal_moves b) j" "- game_value (make_move b (2 ^ j)) = s"
    using r(2) r(3)[of j] move_score_game_value[OF assms, of "2 ^ j"] by auto
  have "game_value b \<le> s"
    using r(4) move_score_game_value[OF assms] by (intro game_value_le[OF assms]) auto
  moreover have "s \<le> game_value b" using game_value_ge_move[OF assms j(1)] j(2) by simp
  ultimately have s: "s = game_value b" by simp
  have "bit best i \<longleftrightarrow> bit (get_legal_moves b) i
          \<and> - game_value (make_move b (2 ^ i)) = game_value b" for i
    using r(3)[of i] move_score_game_value[OF assms, of "2 ^ i"] s by auto
  with r(1) s show ?thesis by blast
qed

section \<open>The value of the empty board\<close>

text \<open>
  To settle the value of the empty board the game tree is walked in a second
  representation of the board, nine cells, on which the simplifier evaluates quickly.
  \<open>nolose\<close> establishes that the side to move can at least draw, \<open>nowin\<close> that it can at
  most draw; both are connected to bitboards by \<open>to_board\<close>.
\<close>

datatype cell = Em | Cr | Ci
datatype grid = Grid cell cell cell cell cell cell cell cell cell
datatype idx = I0 | I1 | I2 | I3 | I4 | I5 | I6 | I7 | I8
datatype lstat = XWin | OWin | Open | Dead

fun gget :: "grid \<Rightarrow> idx \<Rightarrow> cell" where
  "gget (Grid a0 a1 a2 a3 a4 a5 a6 a7 a8) I0 = a0"
| "gget (Grid a0 a1 a2 a3 a4 a5 a6 a7 a8) I1 = a1"
| "gget (Grid a0 a1 a2 a3 a4 a5 a6 a7 a8) I2 = a2"
| "gget (Grid a0 a1 a2 a3 a4 a5 a6 a7 a8) I3 = a3"
| "gget (Grid a0 a1 a2 a3 a4 a5 a6 a7 a8) I4 = a4"
| "gget (Grid a0 a1 a2 a3 a4 a5 a6 a7 a8) I5 = a5"
| "gget (Grid a0 a1 a2 a3 a4 a5 a6 a7 a8) I6 = a6"
| "gget (Grid a0 a1 a2 a3 a4 a5 a6 a7 a8) I7 = a7"
| "gget (Grid a0 a1 a2 a3 a4 a5 a6 a7 a8) I8 = a8"

fun gput :: "grid \<Rightarrow> idx \<Rightarrow> cell \<Rightarrow> grid" where
  "gput (Grid a0 a1 a2 a3 a4 a5 a6 a7 a8) I0 v = Grid v a1 a2 a3 a4 a5 a6 a7 a8"
| "gput (Grid a0 a1 a2 a3 a4 a5 a6 a7 a8) I1 v = Grid a0 v a2 a3 a4 a5 a6 a7 a8"
| "gput (Grid a0 a1 a2 a3 a4 a5 a6 a7 a8) I2 v = Grid a0 a1 v a3 a4 a5 a6 a7 a8"
| "gput (Grid a0 a1 a2 a3 a4 a5 a6 a7 a8) I3 v = Grid a0 a1 a2 v a4 a5 a6 a7 a8"
| "gput (Grid a0 a1 a2 a3 a4 a5 a6 a7 a8) I4 v = Grid a0 a1 a2 a3 v a5 a6 a7 a8"
| "gput (Grid a0 a1 a2 a3 a4 a5 a6 a7 a8) I5 v = Grid a0 a1 a2 a3 a4 v a6 a7 a8"
| "gput (Grid a0 a1 a2 a3 a4 a5 a6 a7 a8) I6 v = Grid a0 a1 a2 a3 a4 a5 v a7 a8"
| "gput (Grid a0 a1 a2 a3 a4 a5 a6 a7 a8) I7 v = Grid a0 a1 a2 a3 a4 a5 a6 v a8"
| "gput (Grid a0 a1 a2 a3 a4 a5 a6 a7 a8) I8 v = Grid a0 a1 a2 a3 a4 a5 a6 a7 v"

fun line :: "cell \<Rightarrow> cell \<Rightarrow> cell \<Rightarrow> lstat" where
  "line Cr Cr Cr = XWin"
| "line Ci Ci Ci = OWin"
| "line Cr Ci c = Dead"
| "line Ci Cr c = Dead"
| "line Cr b Ci = Dead"
| "line Ci b Cr = Dead"
| "line a Cr Ci = Dead"
| "line a Ci Cr = Dead"
| "line a b c = Open"

fun scan :: "lstat list \<Rightarrow> bool \<Rightarrow> GameStatus" where
  "scan [] op = (if op then IN_PROGRESS else DRAW)"
| "scan (XWin # ls) op = CROSS_WON"
| "scan (OWin # ls) op = CIRCLE_WON"
| "scan (Open # ls) op = scan ls True"
| "scan (Dead # ls) op = scan ls op"

fun gstatus :: "grid \<Rightarrow> GameStatus" where
  "gstatus (Grid a0 a1 a2 a3 a4 a5 a6 a7 a8) =
     scan [line a6 a7 a8, line a3 a4 a5, line a0 a1 a2, line a2 a5 a8, line a1 a4 a7,
           line a0 a3 a6, line a0 a4 a8, line a2 a4 a6] False"

fun mark :: "bool \<Rightarrow> cell" where
  "mark True = Cr"
| "mark False = Ci"

definition try_order :: "idx list" where
  "try_order = [I4, I0, I2, I6, I8, I1, I3, I5, I7]"

fun cell_list :: "grid \<Rightarrow> cell list" where
  "cell_list (Grid a0 a1 a2 a3 a4 a5 a6 a7 a8) = [a0, a1, a2, a3, a4, a5, a6, a7, a8]"

definition count_em :: "grid \<Rightarrow> nat" where
  "count_em g = length (filter (\<lambda>c. c = Em) (cell_list g))"

lemma count_em_gput:
  "gget g i = Em \<Longrightarrow> count_em (gput g i (mark t)) < count_em g"
  by (cases g; cases i; cases t) (simp_all add: count_em_def)

function nolose :: "bool \<Rightarrow> grid \<Rightarrow> bool"
  and ex_move :: "bool \<Rightarrow> grid \<Rightarrow> idx list \<Rightarrow> bool"
  and nowin :: "bool \<Rightarrow> grid \<Rightarrow> bool"
  and all_moves :: "bool \<Rightarrow> grid \<Rightarrow> idx list \<Rightarrow> bool"
where
  "nolose t g =
     (case gstatus g of
        IN_PROGRESS \<Rightarrow> ex_move t g try_order
      | DRAW \<Rightarrow> True
      | CROSS_WON \<Rightarrow> False
      | CIRCLE_WON \<Rightarrow> False)"
| "ex_move t g [] = False"
| "ex_move t g (i # is) =
     (if gget g i = Em
      then (if nowin (\<not> t) (gput g i (mark t)) then True else ex_move t g is)
      else ex_move t g is)"
| "nowin t g =
     (case gstatus g of
        IN_PROGRESS \<Rightarrow> all_moves t g try_order
      | DRAW \<Rightarrow> True
      | CROSS_WON \<Rightarrow> True
      | CIRCLE_WON \<Rightarrow> True)"
| "all_moves t g [] = True"
| "all_moves t g (i # is) =
     (if gget g i = Em
      then (if nolose (\<not> t) (gput g i (mark t)) then all_moves t g is else False)
      else all_moves t g is)"
  by pat_completeness auto
termination
  by (relation "inv_image (less_than <*lex*> less_than)
        (\<lambda>x. case x of
           Inl (Inl (t, g)) \<Rightarrow> (count_em g, 10)
         | Inl (Inr (t, g, js)) \<Rightarrow> (count_em g, length js)
         | Inr (Inl (t, g)) \<Rightarrow> (count_em g, 10)
         | Inr (Inr (t, g, js)) \<Rightarrow> (count_em g, length js))")
     (auto simp: count_em_gput try_order_def)

declare nolose.simps [simp del] ex_move.simps [simp del] nowin.simps [simp del]
  all_moves.simps [simp del]

lemmas search_simps = nolose.simps ex_move.simps nowin.simps all_moves.simps

definition empty_grid :: grid where
  "empty_grid = Grid Em Em Em Em Em Em Em Em Em"

lemma nowin_empty: "nowin True empty_grid"
  by (simp add: try_order_def empty_grid_def search_simps)

lemma nolose_empty: "nolose True empty_grid"
  by (simp add: try_order_def empty_grid_def search_simps)

lemma nowin_first_moves: "nowin False (gput empty_grid i Cr)"
  by (cases i) (simp_all add: try_order_def empty_grid_def search_simps)

fun idx_nat :: "idx \<Rightarrow> nat" where
  "idx_nat I0 = 0" | "idx_nat I1 = 1" | "idx_nat I2 = 2" | "idx_nat I3 = 3" | "idx_nat I4 = 4"
| "idx_nat I5 = 5" | "idx_nat I6 = 6" | "idx_nat I7 = 7" | "idx_nat I8 = 8"

fun bits_of :: "cell \<Rightarrow> grid \<Rightarrow> Bitboard" where
  "bits_of p (Grid a0 a1 a2 a3 a4 a5 a6 a7 a8) =
     (if a0 = p then 2 ^ 0 else 0) OR (if a1 = p then 2 ^ 1 else 0) OR (if a2 = p then 2 ^ 2 else 0)
     OR (if a3 = p then 2 ^ 3 else 0) OR (if a4 = p then 2 ^ 4 else 0) OR (if a5 = p then 2 ^ 5 else 0)
     OR (if a6 = p then 2 ^ 6 else 0) OR (if a7 = p then 2 ^ 7 else 0) OR (if a8 = p then 2 ^ 8 else 0)"

definition to_board :: "grid \<Rightarrow> bool \<Rightarrow> Board" where
  "to_board g t = \<lparr>cross = bits_of Cr g, circle = bits_of Ci g, cross_to_move = t\<rparr>"

lemma bit_if_exp: "bit (if c then 2 ^ k else (0 :: Bitboard)) n \<longleftrightarrow> c \<and> n = k \<and> k < 16"
  by (auto simp: bit_exp_iff)

lemma bit_bits_of: "bit (bits_of p g) n \<longleftrightarrow> n < 9 \<and> cell_list g ! n = p"
proof (cases g)
  case (Grid a0 a1 a2 a3 a4 a5 a6 a7 a8)
  show ?thesis
  proof (cases "n < 9")
    case True
    then consider "n = 0" | "n = 1" | "n = 2" | "n = 3" | "n = 4" | "n = 5" | "n = 6" | "n = 7"
      | "n = 8" by arith
    then show ?thesis
      by cases (simp_all add: Grid bit_or_iff bit_if_exp)
  next
    case False
    then show ?thesis by (simp add: Grid bit_or_iff bit_if_exp)
  qed
qed

lemma gget_nth: "gget g i = cell_list g ! idx_nat i"
  by (cases g; cases i) simp_all

lemma idx_nat_lt: "idx_nat i < 9"
  by (cases i) simp_all

lemma cell_list_gput: "cell_list (gput g i v) = (cell_list g)[idx_nat i := v]"
  by (cases g; cases i) simp_all

lemma length_cell_list: "length (cell_list g) = 9"
  by (cases g) simp

lemma cell_cases: "c \<noteq> Cr \<Longrightarrow> c \<noteq> Ci \<Longrightarrow> c = Em"
  by (cases c) auto

lemma legal_to_board:
  "bit (get_legal_moves (to_board g t)) n \<longleftrightarrow> n < 9 \<and> cell_list g ! n = Em"
  by (auto simp: legal_bit to_board_def bit_bits_of dest: cell_cases)

lemma make_move_to_board:
  assumes "gget g i = Em"
  shows "make_move (to_board g t) (2 ^ idx_nat i) = to_board (gput g i (mark t)) (\<not> t)"
proof -
  let ?k = "idx_nat i"
  have k: "?k < 9" by (rule idx_nat_lt)
  have e: "cell_list g ! ?k = Em" using assms by (simp add: gget_nth)
  have nth: "cell_list (gput g i v) ! n = (if n = ?k then v else cell_list g ! n)" if "n < 9" for n v
    using that by (simp add: cell_list_gput nth_list_update length_cell_list)
  have same: "bits_of p (gput g i v) = bits_of p g" if "v \<noteq> p" "p \<noteq> Em" for p v
  proof (rule bit_eqI)
    fix n
    show "bit (bits_of p (gput g i v)) n = bit (bits_of p g) n"
      using that e nth[of n v] by (cases "n < 9") (auto simp: bit_bits_of)
  qed
  have add: "bits_of p g XOR 2 ^ ?k = bits_of p (gput g i p)" if "p \<noteq> Em" for p
  proof (rule bit_eqI)
    fix n
    show "bit (bits_of p g XOR 2 ^ ?k) n = bit (bits_of p (gput g i p)) n"
      using that e k nth[of n p]
      by (cases "n < 9") (auto simp: bit_bits_of bit_xor_iff bit_exp_iff)
  qed
  show ?thesis
  proof (cases t)
    case True
    then show ?thesis
      using add[of Cr] same[of Cr Ci] by (simp add: make_move_def to_board_def Let_def)
  next
    case False
    then show ?thesis
      using add[of Ci] same[of Ci Cr] by (simp add: make_move_def to_board_def Let_def)
  qed
qed

definition line_agrees :: "nat set \<Rightarrow> nat set \<Rightarrow> nat set \<Rightarrow> lstat \<Rightarrow> bool" where
  "line_agrees cr ci L l =
     ((L \<subseteq> cr \<longleftrightarrow> l = XWin) \<and> (L \<subseteq> ci \<longleftrightarrow> l = OWin)
      \<and> ((completable cr ci L \<or> completable ci cr L) \<longleftrightarrow> l \<noteq> Dead))"

declare bits_of.simps [simp del]

lemma scan_spec:
  "list_all2 (line_agrees cr ci) Ls ls \<Longrightarrow>
   scan ls op =
     (case spec_owned cr ci Ls of
        Some s \<Rightarrow> s
      | None \<Rightarrow> if op \<or> (\<exists>L\<in>set Ls. completable cr ci L \<or> completable ci cr L)
                then IN_PROGRESS else DRAW)"
proof (induction Ls ls arbitrary: op rule: list_all2_induct)
  case Nil
  then show ?case by simp
next
  case (Cons L Ls l ls)
  then show ?case by (cases l) (auto simp: line_agrees_def)
qed

lemma cells_bits_of: "n \<in> cells (bits_of p g) \<longleftrightarrow> n < 9 \<and> cell_list g ! n = p"
  by (simp add: cells_iff bit_bits_of)

lemma line_agrees_grid:
  assumes "i < 9" "j < 9" "k < 9"
  shows "line_agrees (cells (bits_of Cr g)) (cells (bits_of Ci g)) {i, j, k}
           (line (cell_list g ! i) (cell_list g ! j) (cell_list g ! k))"
  using assms
  by (cases "cell_list g ! i"; cases "cell_list g ! j"; cases "cell_list g ! k")
     (simp_all add: line_agrees_def completable_def cells_bits_of)

lemma gstatus_check_status: "check_status (to_board g t) = gstatus g"
proof (cases g)
  case (Grid a0 a1 a2 a3 a4 a5 a6 a7 a8)
  define cr where "cr = cells (bits_of Cr g)"
  define ci where "ci = cells (bits_of Ci g)"
  have lr: "line_agrees cr ci {i, j, k} (line (cell_list g ! i) (cell_list g ! j) (cell_list g ! k))"
    if "i < 9" "j < 9" "k < 9" for i j k
    unfolding cr_def ci_def using that by (rule line_agrees_grid)
  have cl: "cell_list g = [a0, a1, a2, a3, a4, a5, a6, a7, a8]" by (simp only: Grid cell_list.simps)
  have l: "list_all2 (line_agrees cr ci) lines
     [line a6 a7 a8, line a3 a4 a5, line a0 a1 a2, line a2 a5 a8, line a1 a4 a7,
      line a0 a3 a6, line a0 a4 a8, line a2 a4 a6]"
    using lr[of 6 7 8] lr[of 3 4 5] lr[of 0 1 2] lr[of 2 5 8] lr[of 1 4 7] lr[of 0 3 6]
      lr[of 0 4 8] lr[of 2 4 6]
    by (simp add: lines_def cl)
  have gs: "gstatus g = scan [line a6 a7 a8, line a3 a4 a5, line a0 a1 a2, line a2 a5 a8,
      line a1 a4 a7, line a0 a3 a6, line a0 a4 a8, line a2 a4 a6] False"
    by (simp only: Grid gstatus.simps)
  have "check_status (to_board g t) = spec_check_status cr ci"
    unfolding check_status_spec cr_def ci_def by (simp add: to_board_def)
  also have "\<dots> = gstatus g"
    unfolding gs spec_check_status_def using scan_spec[OF l, of False]
    by (auto split: option.splits)
  finally show ?thesis .
qed

lemma try_order_complete: "i \<in> set try_order"
  by (cases i) (simp_all add: try_order_def)

lemma nat_idx: "n < 9 \<Longrightarrow> \<exists>i. idx_nat i = n"
proof -
  assume "n < 9"
  then consider "n = 0" | "n = 1" | "n = 2" | "n = 3" | "n = 4" | "n = 5" | "n = 6" | "n = 7"
    | "n = 8" by arith
  then show ?thesis
    by cases (auto intro: exI[of _ I0] exI[of _ I1] exI[of _ I2] exI[of _ I3] exI[of _ I4]
        exI[of _ I5] exI[of _ I6] exI[of _ I7] exI[of _ I8])
qed

lemma search_sound:
  "nolose t g \<Longrightarrow> 0 \<le> game_value (to_board g t)"
  "ex_move t g js \<Longrightarrow> gstatus g = IN_PROGRESS \<Longrightarrow> 0 \<le> game_value (to_board g t)"
  "nowin t g \<Longrightarrow> game_value (to_board g t) \<le> 0"
  "all_moves t g js \<Longrightarrow> gstatus g = IN_PROGRESS \<Longrightarrow> i \<in> set js \<Longrightarrow> gget g i = Em \<Longrightarrow>
     0 \<le> game_value (to_board (gput g i (mark t)) (\<not> t))"
proof (induction t g and t g js and t g and t g js arbitrary: and and and i
       rule: nolose_ex_move_nowin_all_moves.induct)
  case (1 t g)
  then show ?case
    by (cases "gstatus g")
       (simp_all add: nolose.simps game_value_terminal gstatus_check_status)
next
  case (2 t g)
  then show ?case by (simp add: ex_move.simps)
next
  case (3 t g j js)
  show ?case
  proof (cases "gget g j = Em \<and> nowin (\<not> t) (gput g j (mark t))")
    case True
    with 3(1) have "game_value (to_board (gput g j (mark t)) (\<not> t)) \<le> 0" by simp
    moreover have "bit (get_legal_moves (to_board g t)) (idx_nat j)"
      using True by (simp add: legal_to_board idx_nat_lt gget_nth)
    from game_value_ge_move[OF _ this] 3(5)
    have "- game_value (to_board (gput g j (mark t)) (\<not> t)) \<le> game_value (to_board g t)"
      using True by (simp add: gstatus_check_status make_move_to_board)
    ultimately show ?thesis by simp
  next
    case False
    with 3(4) have "ex_move t g js" by (auto simp: ex_move.simps split: if_splits)
    with 3(2,3) 3(5) False show ?thesis by (cases "gget g j = Em") auto
  qed
next
  case (4 t g)
  show ?case
  proof (cases "gstatus g")
    case IN_PROGRESS
    with 4(2) have a: "all_moves t g try_order" by (simp add: nowin.simps)
    have ip: "check_status (to_board g t) = IN_PROGRESS"
      using IN_PROGRESS by (simp add: gstatus_check_status)
    show ?thesis
    proof (rule game_value_le[OF ip])
      fix k assume k: "bit (get_legal_moves (to_board g t)) k"
      then have "k < 9" "cell_list g ! k = Em" by (simp_all add: legal_to_board)
      then obtain i where i: "idx_nat i = k" "gget g i = Em"
        using nat_idx[of k] by (auto simp: gget_nth)
      from 4(1)[OF IN_PROGRESS a IN_PROGRESS try_order_complete i(2)]
      show "- game_value (make_move (to_board g t) (2 ^ k)) \<le> 0"
        using make_move_to_board[OF i(2), of t] i(1) by simp
    qed
  qed (simp_all add: game_value_terminal gstatus_check_status)
next
  case (5 t g)
  then show ?case by simp
next
  case (6 t g j js)
  show ?case
  proof (cases "gget g j = Em")
    case True
    with 6(4) have n: "nolose (\<not> t) (gput g j (mark t))" "all_moves t g js"
      by (auto simp: all_moves.simps split: if_splits)
    show ?thesis
    proof (cases "i = j")
      case True
      with 6(1) \<open>gget g j = Em\<close> n(1) show ?thesis by simp
    next
      case False
      with 6(6) have "i \<in> set js" by simp
      from 6(2)[OF True n(1) n(2) 6(5) this 6(7)] show ?thesis .
    qed
  next
    case False
    with 6(4) have a: "all_moves t g js" by (simp add: all_moves.simps)
    from False 6(6,7) have "i \<in> set js" by auto
    from 6(3)[OF False a 6(5) this 6(7)] show ?thesis .
  qed
qed

lemma to_board_empty: "to_board empty_grid True = empty_board"
  by (simp add: to_board_def empty_grid_def empty_board_def bits_of.simps)

lemma game_value_empty: "game_value empty_board = 0"
  using search_sound(1)[OF nolose_empty] search_sound(3)[OF nowin_empty]
  by (simp add: to_board_empty)

lemma check_status_empty: "check_status empty_board = IN_PROGRESS"
  by (simp add: check_status_def winning_patterns_def empty_board_def)

lemma game_value_first_moves:
  assumes "i < 9"
  shows "game_value (make_move empty_board (2 ^ i)) = 0"
proof -
  from nat_idx[OF assms] obtain k where k: "idx_nat k = i" by blast
  have e: "gget empty_grid k = Em" by (cases k) (simp_all add: empty_grid_def)
  from make_move_to_board[OF e, of True] k
  have m: "make_move empty_board (2 ^ i) = to_board (gput empty_grid k Cr) False"
    by (simp add: to_board_empty)
  have "game_value (make_move empty_board (2 ^ i)) \<le> 0"
    unfolding m by (rule search_sound(3)[OF nowin_first_moves])
  moreover have "bit (get_legal_moves empty_board) i"
    using assms by (simp add: legal_bit empty_board_def)
  from game_value_ge_move[OF check_status_empty this]
  have "0 \<le> game_value (make_move empty_board (2 ^ i))" by (simp add: game_value_empty)
  ultimately show ?thesis by simp
qed

lemma bot_search_empty: "bot_search empty_board = Some (511, 0, empty_board)"
proof -
  from bot_search_game_value[OF check_status_empty] obtain best where
    b: "bot_search empty_board = Some (best, 0, empty_board)"
       "\<And>i. bit best i \<longleftrightarrow> bit (get_legal_moves empty_board) i
                \<and> - game_value (make_move empty_board (2 ^ i)) = 0"
    by (auto simp: game_value_empty)
  have "bit best i \<longleftrightarrow> i < 9" for i
    using b(2)[of i] game_value_first_moves[of i] by (auto simp: legal_bit empty_board_def)
  then have "best = 511"
    by (intro bit_eqI) (simp add: mask_511 bit_mask_iff)
  with b(1) show ?thesis by simp
qed

lemma bot_first_nonneg: "bot_first b \<Longrightarrow> 0 \<le> game_value b"
proof (induction rule: bot_first.induct)
  case start
  then show ?case by (simp add: game_value_empty)
next
  case (round b best s b' i j)
  from bot_search_game_value[OF round.hyps(2)] round.hyps(3,4)
  have "bit (get_legal_moves b) i" "- game_value (make_move b (2 ^ i)) = game_value b" by auto
  with round.IH have "game_value (make_move b (2 ^ i)) \<le> 0" by simp
  with game_value_ge_move[OF round.hyps(5,6)] show ?case by simp
qed

text \<open>
  C4: on the empty board (cross to move) all nine moves score 0, so the best score that
  \<open>choose_move\<close> computes is exactly 0 and it announces a draw.  Moreover, on every board
  that arises from the empty board when the bot moves first and has always played one of its
  best-scoring moves, against arbitrary legal replies, and on which the game is in progress
  with the bot to move, the best score the bot computes is not negative (it never announces
  a loss).
\<close>

theorem bot_first_never_negative:
  "bot_search empty_board = Some (511, 0, empty_board)
   \<and> predict 0 = Draw_so_far
   \<and> (bot_first b \<and> check_status b = IN_PROGRESS \<longrightarrow>
        (\<exists>best s. bot_search b = Some (best, s, b) \<and> 0 \<le> s \<and> predict s \<noteq> Bot_loses))"
proof -
  have "\<exists>best s. bot_search b = Some (best, s, b) \<and> 0 \<le> s \<and> predict s \<noteq> Bot_loses"
    if "bot_first b" "check_status b = IN_PROGRESS"
  proof -
    from bot_search_game_value[OF that(2)] obtain best where
      "bot_search b = Some (best, game_value b, b)" by blast
    moreover have "0 \<le> game_value b" using that(1) by (rule bot_first_nonneg)
    moreover from this have "predict (game_value b) \<noteq> Bot_loses" by (simp add: predict_def)
    ultimately show ?thesis by blast
  qed
  moreover have "predict 0 = Draw_so_far" by (simp add: predict_def)
  ultimately show ?thesis using bot_search_empty by blast
qed

theorem bot_first_never_negative_witness:
  "bot_first \<lparr>cross = 16, circle = 1, cross_to_move = True\<rparr>
   \<and> check_status \<lparr>cross = 16, circle = 1, cross_to_move = True\<rparr> = IN_PROGRESS
   \<and> (\<exists>best s. bot_search \<lparr>cross = 16, circle = 1, cross_to_move = True\<rparr>
          = Some (best, s, \<lparr>cross = 16, circle = 1, cross_to_move = True\<rparr>) \<and> 0 \<le> s)"
proof -
  let ?B = "\<lparr>cross = 16, circle = 1, cross_to_move = True\<rparr>"
  let ?C = "\<lparr>cross = 16, circle = 0, cross_to_move = False\<rparr>"
  have s: "bot_search empty_board = Some (511, 0, empty_board)"
    using bot_first_never_negative[of empty_board] by blast
  have b4: "bit (511 :: Bitboard) 4" by (simp add: mask_511 bit_mask_iff)
  have c: "make_move empty_board (2 ^ 4) = ?C" by (simp add: make_move_def empty_board_def)
  have cs: "check_status ?C = IN_PROGRESS" by (simp add: check_status_def winning_patterns_def)
  have l0: "bit (get_legal_moves ?C) 0" by (simp add: legal_bit)
  have m: "make_move ?C (2 ^ 0) = ?B" by (simp add: make_move_def)
  have bf: "bot_first ?B"
    using bot_first.round[OF bot_first.start check_status_empty s b4, of 0] c cs l0 m by simp
  have ip: "check_status ?B = IN_PROGRESS" by (simp add: check_status_def winning_patterns_def)
  from bot_first_never_negative[of ?B] bf ip show ?thesis by blast
qed

end
